theory Spec2Isabelle
  imports Main "HOL-Library.Char_ord" "HOL-Library.List_Lexorder"
begin

section \<open>Values, documents and errors\<close>

text \<open>
  A document (a Python dict keyed by field name, as \<open>Object\<close> and the raw records of the
  store are) is a map from field names to values. Values are the scalars the session
  code handles: \<open>None\<close>, integers, strings and the ObjectIds the store generates.
\<close>

datatype val = VNone | VInt int | VStr string | VOid nat

type_synonym doc = "string \<rightharpoonup> val"

text \<open>Every exception the modelled code can raise is a value; the payload is the message.\<close>

datatype error =
    IndexError
  | ValueError string
  | AttributeError string
  | KeyError string
  | ValidationError string

text \<open>Python truthiness of a value (\<open>if result\<close> in \<open>Session.save\<close>).\<close>

fun truthy :: "val \<Rightarrow> bool" where
  "truthy VNone = False"
| "truthy (VInt n) = (n \<noteq> 0)"
| "truthy (VStr t) = (t \<noteq> [])"
| "truthy (VOid n) = True"

text \<open>\<open>isinstance(bson, pymongo.objectid.ObjectId)\<close> in \<open>Session.insert\<close>.\<close>

fun is_oid :: "val \<Rightarrow> bool" where
  "is_oid (VOid n) = True"
| "is_oid v = False"

text \<open>
  A dict literal or a \<open>dict(...)\<close> built from pairs: a later pair with a key already
  present replaces the value of the earlier one.
\<close>

fun dict_set :: "'k \<Rightarrow> 'v \<Rightarrow> ('k \<times> 'v) list \<Rightarrow> ('k \<times> 'v) list" where
  "dict_set k v [] = [(k, v)]"
| "dict_set k v ((k', v') # kvs) =
     (if k' = k then (k, v) # kvs else (k', v') # dict_set k v kvs)"

section \<open>The storage gateway\<close>

text \<open>
  Modelled from the spec: the storage engine behind \<open>Session._impl\<close> (the driver's
  collection object) is not part of the repository. A collection is the list of its
  stored records; a filter is a dict from field names to either a value (equality) or
  \<open>{'$lt': value}\<close>; an update document is either \<open>{'$set': values}\<close> or a whole
  replacement record. The engine offers find-one, insert, save, update (first match
  only, optionally upserting) and remove, each atomic on a single record.
\<close>

datatype cond = Eq val | Lt val

type_synonym spec = "(string \<times> cond) list"

datatype update_doc = Set doc | Replace doc

datatype call =
    FindOne string spec
  | Update string spec update_doc bool
  | SaveCall string doc
  | InsertCall string doc
  | RemoveCall string spec

text \<open>
  Modelled from the spec: the engine's strict order, which compares values of one type
  only; a stored \<open>None\<close> or a value of another type is never less than the bound.
\<close>

fun val_lt :: "val \<Rightarrow> val \<Rightarrow> bool" where
  "val_lt (VInt a) (VInt b) = (a < b)"
| "val_lt (VStr a) (VStr b) = (a < b)"
| "val_lt (VOid a) (VOid b) = (a < b)"
| "val_lt v w = False"

text \<open>
  Modelled from the spec: one filter entry against the stored field. Equality with
  \<open>None\<close> matches a record whose field is null or missing; \<open>$lt\<close> needs the field
  to be stored and strictly less than the bound.
\<close>

fun cond_holds :: "val option \<Rightarrow> cond \<Rightarrow> bool" where
  "cond_holds None (Eq v) = (v = VNone)"
| "cond_holds (Some w) (Eq v) = (w = v)"
| "cond_holds None (Lt v) = False"
| "cond_holds (Some w) (Lt v) = val_lt w v"

definition matches :: "spec \<Rightarrow> doc \<Rightarrow> bool" where
  "matches sp d = list_all (\<lambda>(k, c). cond_holds (d k) c) sp"

definition coll_find_one :: "spec \<Rightarrow> doc list \<Rightarrow> doc option" where
  "coll_find_one sp c = find (matches sp) c"

fun modify_first :: "(doc \<Rightarrow> bool) \<Rightarrow> (doc \<Rightarrow> doc) \<Rightarrow> doc list \<Rightarrow> doc list" where
  "modify_first P f [] = []"
| "modify_first P f (d # ds) = (if P d then f d # ds else d # modify_first P f ds)"

text \<open>
  Modelled from the spec: \<open>$set\<close> overwrites the named fields and keeps the others;
  a replacement record takes the place of the stored one, which keeps its primary key.
\<close>

fun apply_update :: "update_doc \<Rightarrow> doc \<Rightarrow> doc" where
  "apply_update (Set vs) d = d ++ vs"
| "apply_update (Replace nd) d =
     (case d ''_id'' of None \<Rightarrow> nd | Some k \<Rightarrow> nd(''_id'' \<mapsto> k))"

fun spec_eqs :: "spec \<Rightarrow> doc" where
  "spec_eqs [] = Map.empty"
| "spec_eqs ((k, Eq v) # sp) = (spec_eqs sp)(k \<mapsto> v)"
| "spec_eqs ((k, Lt v) # sp) = spec_eqs sp"

definition with_id :: "val \<Rightarrow> doc \<Rightarrow> doc" where
  "with_id k d = (if ''_id'' \<in> dom d then d else d(''_id'' \<mapsto> k))"

fun upsert_doc :: "spec \<Rightarrow> update_doc \<Rightarrow> doc" where
  "upsert_doc sp (Set vs) = spec_eqs sp ++ vs"
| "upsert_doc sp (Replace nd) = nd"

definition coll_update :: "spec \<Rightarrow> update_doc \<Rightarrow> bool \<Rightarrow> val \<Rightarrow> doc list \<Rightarrow> doc list" where
  "coll_update sp u ups fresh c =
     (if list_ex (matches sp) c then modify_first (matches sp) (apply_update u) c
      else if ups then c @ [with_id fresh (upsert_doc sp u)]
      else c)"

definition coll_remove :: "spec \<Rightarrow> doc list \<Rightarrow> doc list" where
  "coll_remove sp c = filter (\<lambda>d. \<not> matches sp d) c"

section \<open>Type descriptors, objects and the session\<close>

text \<open>
  A document class with its \<open>__mongometa__\<close>: the collection name, the optional schema
  (its \<open>validate\<close>) and the optional \<open>before_save\<close> hook. \<open>make_safe\<close> and \<open>make\<close>
  (here \<open>make_obj\<close>) are methods of \<open>base.Object\<close>, which is outside \<open>session.py\<close>;
  they are parameters of the class here. \<open>make_obj\<close> receives
  \<open>Some (allow_extra, strip_extra)\<close> when the call names the two keywords and \<open>None\<close>
  when it leaves them to their defaults. \<open>cls_name\<close> stands for the identity of the
  class object, which keys the identity map.
\<close>

record cls =
  cls_name :: string
  coll_name :: string
  schema :: "(doc \<Rightarrow> error + doc) option"
  before_save :: "(doc \<Rightarrow> error + doc) option"
  make_safe :: "doc \<Rightarrow> doc"
  make_obj :: "(bool \<times> bool) option \<Rightarrow> doc \<Rightarrow> error + doc"

type_synonym ref = nat

record obj =
  obj_cls :: cls
  obj_fields :: doc

datatype status = Clean | Dirty | New

text \<open>
  The session (\<open>bind\<close>, \<open>autoflush\<close>, \<open>uow\<close>, \<open>imap\<close>) together with what it acts on:
  the heap of document objects, addressed by reference so that object identity is
  equality of references, and the trace of calls issued to the storage gateway.
  \<open>bind\<close> is the bound database (collection name to records), or \<open>None\<close> for a session
  without a usable database. The identity map and the unit of work are
  \<open>identity_map.py\<close> and \<open>unit_of_work.py\<close>, outside \<open>session.py\<close>.
\<close>

record world =
  bind :: "(string \<Rightarrow> doc list) option"
  autoflush :: bool
  uow :: "ref \<rightharpoonup> status"
  imap :: "(string \<times> val) \<rightharpoonup> ref"
  heap :: "ref \<Rightarrow> obj"
  next_ref :: ref
  next_oid :: nat
  calls :: "call list"

text \<open>Modelled from the spec: \<open>IdentityMap.get\<close>, the cached instance for (type, key).\<close>

definition imap_get :: "world \<Rightarrow> cls \<Rightarrow> val \<Rightarrow> ref option" where
  "imap_get s c k = imap s (cls_name c, k)"

text \<open>
  Modelled from the spec: \<open>IdentityMap.save\<close> registers or overwrites the entry for the
  object's (type, key); reading the key of an object that has none raises.
\<close>

definition imap_save :: "world \<Rightarrow> ref \<Rightarrow> (error + unit) \<times> world" where
  "imap_save s r =
     (case obj_fields (heap s r) ''_id'' of
        None \<Rightarrow> (Inl (AttributeError ''_id''), s)
      | Some k \<Rightarrow> (Inr (), s\<lparr>imap := (imap s)((cls_name (obj_cls (heap s r)), k) \<mapsto> r)\<rparr>))"

text \<open>Modelled from the spec: \<open>IdentityMap.clear\<close> and the four \<open>UnitOfWork\<close> methods.\<close>

definition imap_clear :: "world \<Rightarrow> world" where
  "imap_clear s = s\<lparr>imap := Map.empty\<rparr>"

definition uow_save_clean :: "world \<Rightarrow> ref \<Rightarrow> world" where
  "uow_save_clean s r = s\<lparr>uow := (uow s)(r \<mapsto> Clean)\<rparr>"

definition uow_save_new :: "world \<Rightarrow> ref \<Rightarrow> world" where
  "uow_save_new s r = s\<lparr>uow := (uow s)(r \<mapsto> New)\<rparr>"

definition uow_save_dirty :: "world \<Rightarrow> ref \<Rightarrow> world" where
  "uow_save_dirty s r = s\<lparr>uow := (uow s)(r \<mapsto> Dirty)\<rparr>"

definition uow_clear :: "world \<Rightarrow> world" where
  "uow_clear s = s\<lparr>uow := Map.empty\<rparr>"

subsection \<open>Storage calls issued by the session\<close>

text \<open>
  \<open>Session._impl\<close>: \<open>self.bind.db[cls.__mongometa__.name]\<close>. Without a usable database
  the caller's storage call raises \<open>AttributeError\<close> before anything reaches the store.
\<close>

definition impl :: "world \<Rightarrow> cls \<Rightarrow> error + string" where
  "impl s c = (case bind s of None \<Rightarrow> Inl (AttributeError ''db'') | Some db \<Rightarrow> Inr (coll_name c))"

definition stored :: "world \<Rightarrow> string \<Rightarrow> doc list" where
  "stored s cn = (case bind s of None \<Rightarrow> [] | Some db \<Rightarrow> db cn)"

definition put_coll :: "string \<Rightarrow> doc list \<Rightarrow> world \<Rightarrow> world" where
  "put_coll cn c s = s\<lparr>bind := map_option (\<lambda>db. db(cn := c)) (bind s)\<rparr>"

definition record_call :: "call \<Rightarrow> world \<Rightarrow> world" where
  "record_call x s = s\<lparr>calls := calls s @ [x]\<rparr>"

definition storage_find_one :: "string \<Rightarrow> spec \<Rightarrow> world \<Rightarrow> doc option \<times> world" where
  "storage_find_one cn sp s = (coll_find_one sp (stored s cn), record_call (FindOne cn sp) s)"

definition storage_update :: "string \<Rightarrow> spec \<Rightarrow> update_doc \<Rightarrow> bool \<Rightarrow> world \<Rightarrow> world" where
  "storage_update cn sp u ups s =
     record_call (Update cn sp u ups)
       (put_coll cn (coll_update sp u ups (VOid (next_oid s)) (stored s cn))
          (s\<lparr>next_oid := Suc (next_oid s)\<rparr>))"

definition storage_insert :: "string \<Rightarrow> doc \<Rightarrow> world \<Rightarrow> val \<times> world" where
  "storage_insert cn data s =
     (case data ''_id'' of
        Some k \<Rightarrow> (k, put_coll cn (stored s cn @ [data]) s)
      | None \<Rightarrow>
          (VOid (next_oid s),
           put_coll cn (stored s cn @ [data(''_id'' \<mapsto> VOid (next_oid s))])
             (s\<lparr>next_oid := Suc (next_oid s)\<rparr>)))"

text \<open>
  Modelled from the spec: the gateway's save is the full upsert-by-identity, an insert
  for a record without a primary key and a replace-or-insert by key otherwise; it
  returns the record's key.
\<close>

definition storage_save :: "string \<Rightarrow> doc \<Rightarrow> world \<Rightarrow> val \<times> world" where
  "storage_save cn data s =
     (case data ''_id'' of
        None \<Rightarrow> storage_insert cn data s
      | Some k \<Rightarrow>
          (k, put_coll cn (coll_update [(''_id'', Eq k)] (Replace data) True k (stored s cn)) s))"

definition storage_remove :: "string \<Rightarrow> spec \<Rightarrow> world \<Rightarrow> world" where
  "storage_remove cn sp s =
     record_call (RemoveCall cn sp) (put_coll cn (coll_remove sp (stored s cn)) s)"

subsection \<open>Object helpers\<close>

definition doc_of :: "world \<Rightarrow> ref \<Rightarrow> doc" where
  "doc_of s r = obj_fields (heap s r)"

definition class_of :: "world \<Rightarrow> ref \<Rightarrow> cls" where
  "class_of s r = obj_cls (heap s r)"

definition set_fields :: "world \<Rightarrow> ref \<Rightarrow> doc \<Rightarrow> world" where
  "set_fields s r d = s\<lparr>heap := (heap s)(r := (heap s r)\<lparr>obj_fields := d\<rparr>)\<rparr>"

definition alloc :: "world \<Rightarrow> cls \<Rightarrow> doc \<Rightarrow> ref \<times> world" where
  "alloc s c d =
     (next_ref s,
      s\<lparr>heap := (heap s)(next_ref s := \<lparr>obj_cls = c, obj_fields = d\<rparr>), next_ref := Suc (next_ref s)\<rparr>)"

text \<open>Step (3) of every write: the schema's \<open>validate\<close>, or \<open>dict(doc)\<close> without a schema.\<close>

definition validate :: "cls \<Rightarrow> doc \<Rightarrow> error + doc" where
  "validate c d = (case schema c of None \<Rightarrow> Inr d | Some v \<Rightarrow> v d)"

text \<open>\<open>dict((arg, data[arg]) for arg in args)\<close>: the first missing name raises \<open>KeyError\<close>.\<close>

fun values_of :: "string list \<Rightarrow> doc \<Rightarrow> error + doc" where
  "values_of [] data = Inr Map.empty"
| "values_of (a # as) data =
     (case data a of
        None \<Rightarrow> Inl (KeyError a)
      | Some v \<Rightarrow> (case values_of as data of Inl e \<Rightarrow> Inl e | Inr m \<Rightarrow> Inr (m(a \<mapsto> v))))"

text \<open>\<open>dict((k, doc[k]) for k in spec_fields)\<close>, the equality filter of \<open>upsert\<close>.\<close>

fun spec_of :: "string list \<Rightarrow> doc \<Rightarrow> spec \<Rightarrow> error + spec" where
  "spec_of [] d acc = Inr acc"
| "spec_of (k # ks) d acc =
     (case d k of None \<Rightarrow> Inl (KeyError k) | Some v \<Rightarrow> spec_of ks d (dict_set k (Eq v) acc))"

section \<open>Session operations\<close>

text \<open>\<open>Session.fresh_object\<close>; \<open>register\<close> is its tail, from \<open>self.imap.save(obj)\<close> on.\<close>

definition register :: "world \<Rightarrow> ref \<Rightarrow> (error + ref) \<times> world" where
  "register s r =
     (case imap_save s r of
        (Inl e, s1) \<Rightarrow> (Inl e, s1)
      | (Inr u, s1) \<Rightarrow> (Inr r, uow_save_clean s1 r))"

definition fresh_object :: "world \<Rightarrow> cls \<Rightarrow> doc \<Rightarrow> (error + ref) \<times> world" where
  "fresh_object s c bson =
     (let obj = (case bson ''_id'' of Some k \<Rightarrow> imap_get s c k | None \<Rightarrow> None) in
      case obj of
        None \<Rightarrow>
          (case make_obj c (Some (False, True)) bson of
             Inl e \<Rightarrow> (Inl e, s)
           | Inr d \<Rightarrow> (case alloc s c d of (r, s1) \<Rightarrow> register s1 r))
      | Some r \<Rightarrow>
          (case make_obj c None bson of
             Inl e \<Rightarrow> (Inl e, s)
           | Inr d \<Rightarrow> register (set_fields s r (doc_of s r ++ d)) r))"

text \<open>
  \<open>Session.get\<close>. \<open>kwargs\<close> is the keyword dict as the list of its items in the order
  of \<open>kwargs.keys()\<close>; \<open>kwargs.keys() == ['_id']\<close> holds for the one-entry dict on
  \<open>_id\<close> only.
\<close>

definition get :: "world \<Rightarrow> cls \<Rightarrow> (string \<times> val) list \<Rightarrow> (error + ref option) \<times> world" where
  "get s c kwargs =
     (let result = (case kwargs of
                      [(k, v)] \<Rightarrow> if k = ''_id'' then imap_get s c v else None
                    | _ \<Rightarrow> None) in
      case result of
        Some r \<Rightarrow> (Inr (Some r), s)
      | None \<Rightarrow>
          (case impl s c of
             Inl e \<Rightarrow> (Inl e, s)
           | Inr cn \<Rightarrow>
               (case storage_find_one cn (map (\<lambda>(k, v). (k, Eq v)) kwargs) s of
                  (None, s1) \<Rightarrow> (Inr None, s1)
                | (Some bson, s1) \<Rightarrow>
                    (case fresh_object s1 c bson of
                       (Inl e, s2) \<Rightarrow> (Inl e, s2)
                     | (Inr r, s2) \<Rightarrow> (Inr (Some r), s2)))))"

text \<open>\<open>Session.soil\<close>, \<open>Session.join_new\<close> and \<open>Session.clear\<close>.\<close>

definition soil :: "world \<Rightarrow> ref \<Rightarrow> world" where
  "soil s r = (if autoflush s then s else uow_save_dirty s r)"

definition join_new :: "world \<Rightarrow> ref \<Rightarrow> (error + unit) \<times> world" where
  "join_new s r = imap_save (uow_save_new s r) r"

definition clear :: "world \<Rightarrow> world" where
  "clear s = imap_clear (uow_clear s)"

text \<open>
  The common head of \<open>save\<close>, \<open>insert\<close> and \<open>upsert\<close>: \<open>doc.make_safe()\<close>, then the
  validation, then \<open>doc.update(data)\<close>. It returns the validated snapshot \<open>data\<close>.
\<close>

definition prepare :: "world \<Rightarrow> ref \<Rightarrow> (error + doc) \<times> world" where
  "prepare s r =
     (let c = class_of s r;
          d1 = make_safe c (doc_of s r);
          s1 = set_fields s r d1 in
      case validate c d1 of
        Inl e \<Rightarrow> (Inl e, s1)
      | Inr data \<Rightarrow> (Inr data, set_fields s1 r (d1 ++ data)))"

text \<open>\<open>hook = getattr(doc.__mongometa__, 'before_save', None); if hook: hook.im_func(doc)\<close>.\<close>

definition run_hook :: "world \<Rightarrow> ref \<Rightarrow> (error + unit) \<times> world" where
  "run_hook s r =
     (case before_save (class_of s r) of
        None \<Rightarrow> (Inr (), s)
      | Some h \<Rightarrow>
          (case h (doc_of s r) of
             Inl e \<Rightarrow> (Inl e, s)
           | Inr d \<Rightarrow> (Inr (), set_fields s r d)))"

text \<open>
  \<open>Session.save\<close>. In the partial branch \<open>result\<close> is the store's reply to the update
  and \<open>doc._id\<close> has just been read, so \<open>'_id' not in doc\<close> is false and nothing is
  written back; the model returns there.
\<close>

definition save :: "world \<Rightarrow> ref \<Rightarrow> string list \<Rightarrow> (error + unit) \<times> world" where
  "save s r args =
     (case run_hook s r of
        (Inl e, s0) \<Rightarrow> (Inl e, s0)
      | (Inr u, s0) \<Rightarrow>
     (case prepare s0 r of
        (Inl e, s1) \<Rightarrow> (Inl e, s1)
      | (Inr data, s1) \<Rightarrow>
          if args \<noteq> [] then
            (case values_of args data of
               Inl e \<Rightarrow> (Inl e, s1)
             | Inr values \<Rightarrow>
                 (case impl s1 (class_of s1 r) of
                    Inl e \<Rightarrow> (Inl e, s1)
                  | Inr cn \<Rightarrow>
                      (case doc_of s1 r ''_id'' of
                         None \<Rightarrow> (Inl (AttributeError ''_id''), s1)
                       | Some k \<Rightarrow>
                           (Inr (), storage_update cn [(''_id'', Eq k)] (Set values) False s1))))
          else
            (case impl s1 (class_of s1 r) of
               Inl e \<Rightarrow> (Inl e, s1)
             | Inr cn \<Rightarrow>
                 (case storage_save cn data (record_call (SaveCall cn data) s1) of
                    (result, s2) \<Rightarrow>
                      if truthy result \<and> ''_id'' \<notin> dom (doc_of s2 r)
                      then (Inr (), set_fields s2 r ((doc_of s2 r)(''_id'' \<mapsto> result)))
                      else (Inr (), s2)))))"

text \<open>\<open>Session.insert\<close>.\<close>

definition insert_doc :: "world \<Rightarrow> ref \<Rightarrow> (error + unit) \<times> world" where
  "insert_doc s r =
     (case prepare s r of
        (Inl e, s1) \<Rightarrow> (Inl e, s1)
      | (Inr data, s1) \<Rightarrow>
          (case impl s1 (class_of s1 r) of
             Inl e \<Rightarrow> (Inl e, s1)
           | Inr cn \<Rightarrow>
               (case storage_insert cn data (record_call (InsertCall cn data) s1) of
                  (bson, s2) \<Rightarrow>
                    if is_oid bson
                    then (Inr (), set_fields s2 r ((doc_of s2 r)(''_id'' \<mapsto> bson)))
                    else (Inr (), s2))))"

text \<open>
  \<open>Session.upsert\<close>; \<open>spec_fields\<close> is one field name or a list of them
  (\<open>if type(spec_fields) != list: spec_fields = [spec_fields]\<close>).
\<close>

datatype spec_fields = One string | Many "string list"

fun as_list :: "spec_fields \<Rightarrow> string list" where
  "as_list (One f) = [f]"
| "as_list (Many fs) = fs"

definition upsert :: "world \<Rightarrow> ref \<Rightarrow> spec_fields \<Rightarrow> (error + unit) \<times> world" where
  "upsert s r sf =
     (case prepare s r of
        (Inl e, s1) \<Rightarrow> (Inl e, s1)
      | (Inr data, s1) \<Rightarrow>
          (case impl s1 (class_of s1 r) of
             Inl e \<Rightarrow> (Inl e, s1)
           | Inr cn \<Rightarrow>
               (case spec_of (as_list sf) (doc_of s1 r) [] of
                  Inl e \<Rightarrow> (Inl e, s1)
                | Inr sp \<Rightarrow> (Inr (), storage_update cn sp (Replace (doc_of s1 r)) True s1))))"

text \<open>\<open>Session.delete\<close>.\<close>

definition delete :: "world \<Rightarrow> ref \<Rightarrow> (error + unit) \<times> world" where
  "delete s r =
     (case impl s (class_of s r) of
        Inl e \<Rightarrow> (Inl e, s)
      | Inr cn \<Rightarrow>
          (case doc_of s r ''_id'' of
             None \<Rightarrow> (Inl (AttributeError ''_id''), s)
           | Some k \<Rightarrow> (Inr (), storage_remove cn [(''_id'', Eq k)] s)))"

text \<open>
  \<open>Session.increase_field\<close>. \<open>kwargs\<close> is the keyword dict in the order of
  \<open>kwargs.keys()\<close>, so \<open>kwargs.keys()[0]\<close> is the first entry and raises \<open>IndexError\<close>
  on the empty dict. \<open>guarded_update\<close> is one \<open>self._impl(doc).update({'_id': doc._id,
  key: c}, {'$set': {key: value}}, safe=True)\<close>.
\<close>

definition guarded_update :: "world \<Rightarrow> ref \<Rightarrow> string \<Rightarrow> cond \<Rightarrow> val \<Rightarrow> (error + unit) \<times> world" where
  "guarded_update s r key c v =
     (case impl s (class_of s r) of
        Inl e \<Rightarrow> (Inl e, s)
      | Inr cn \<Rightarrow>
          (case doc_of s r ''_id'' of
             None \<Rightarrow> (Inl (AttributeError ''_id''), s)
           | Some k \<Rightarrow>
               (Inr (),
                storage_update cn (dict_set key c [(''_id'', Eq k)]) (Set [key \<mapsto> v]) False s)))"

definition increase_field :: "world \<Rightarrow> ref \<Rightarrow> (string \<times> val) list \<Rightarrow> (error + unit) \<times> world" where
  "increase_field s r kwargs =
     (case kwargs of
        [] \<Rightarrow> (Inl IndexError, s)
      | (key, v) # rest \<Rightarrow>
          if v = VNone then (Inl (ValueError (key @ ''=None'')), s)
          else
            (case (if key \<notin> dom (doc_of s r)
                   then guarded_update s r key (Eq VNone) v
                   else (Inr (), s)) of
               (Inl e, s1) \<Rightarrow> (Inl e, s1)
             | (Inr u, s1) \<Rightarrow> guarded_update s1 r key (Lt v) v))"

section \<open>Notions used to state the properties\<close>

text \<open>
  A collection is well keyed when every stored record has a primary key and no two
  records share one, as the storage engine guarantees for \<open>_id\<close>.
\<close>

definition unique_ids :: "doc list \<Rightarrow> bool" where
  "unique_ids c = (list_all (\<lambda>d. d ''_id'' \<noteq> None) c \<and> distinct (map (\<lambda>d. d ''_id'') c))"

text \<open>
  The stored value of a field of the record with primary key \<open>k\<close>: \<open>None\<close> when there
  is no such record, \<open>Some None\<close> when the record has no such field.
\<close>

definition stored_field :: "world \<Rightarrow> string \<Rightarrow> val \<Rightarrow> string \<Rightarrow> val option option" where
  "stored_field s cn k key = map_option (\<lambda>d. d key) (coll_find_one [(''_id'', Eq k)] (stored s cn))"

text \<open>Sequential calls \<open>increase_field(doc, key=v)\<close>, one per value, stopping at an error.\<close>

fun increase_seq :: "world \<Rightarrow> ref \<Rightarrow> string \<Rightarrow> val list \<Rightarrow> (error + unit) \<times> world" where
  "increase_seq s r key [] = (Inr (), s)"
| "increase_seq s r key (v # vs) =
     (case increase_field s r [(key, v)] of
        (Inl e, s1) \<Rightarrow> (Inl e, s1)
      | (Inr u, s1) \<Rightarrow> increase_seq s1 r key vs)"

text \<open>The effect of one guarded \<open>$set\<close> of one field on the record with key \<open>k\<close>.\<close>

definition set_if :: "val \<Rightarrow> string \<Rightarrow> cond \<Rightarrow> val \<Rightarrow> doc \<Rightarrow> doc" where
  "set_if k key c v d = (if d ''_id'' = Some k \<and> cond_holds (d key) c then d(key \<mapsto> v) else d)"

text \<open>
  The world after the first storage call of \<open>increase_field\<close>, which the code makes
  only when the field is missing from the in-memory document.
\<close>

definition init_step :: "world \<Rightarrow> ref \<Rightarrow> string \<Rightarrow> val \<Rightarrow> val \<Rightarrow> world" where
  "init_step s r key k v =
     (if key \<in> dom (doc_of s r) then s
      else storage_update (coll_name (class_of s r)) [(''_id'', Eq k), (key, Eq VNone)]
             (Set [key \<mapsto> v]) False s)"

subsection \<open>An example session\<close>

text \<open>
  The spec's example type \<open>User{_id, name, score}\<close> without validator or hook, a store
  holding one user record without a score, and a session whose in-memory document
  is that record; in \<open>local_score_world\<close> the in-memory document has a score that
  the stored record lacks.
\<close>

definition User :: cls where
  "User = \<lparr>cls_name = ''User'', coll_name = ''user'', schema = None, before_save = None,
            make_safe = (\<lambda>d. d), make_obj = (\<lambda>flags d. Inr d)\<rparr>"

definition user_db :: "string \<Rightarrow> doc list" where
  "user_db cn = (if cn = ''user'' then [[''_id'' \<mapsto> VInt 1, ''name'' \<mapsto> VStr ''a'']] else [])"

definition fresh_world :: world where
  "fresh_world =
     \<lparr>bind = Some user_db, autoflush = True, uow = Map.empty, imap = Map.empty,
      heap = (\<lambda>r. \<lparr>obj_cls = User, obj_fields = [''_id'' \<mapsto> VInt 1, ''name'' \<mapsto> VStr ''a'']\<rparr>),
      next_ref = 1, next_oid = 0, calls = []\<rparr>"

definition local_score_world :: world where
  "local_score_world =
     fresh_world\<lparr>heap := (\<lambda>r. \<lparr>obj_cls = User,
        obj_fields = [''_id'' \<mapsto> VInt 1, ''name'' \<mapsto> VStr ''a'', ''score'' \<mapsto> VInt 0]\<rparr>)\<rparr>"

text \<open>The same session after the stored score has reached 5.\<close>

definition scored_db :: "string \<Rightarrow> doc list" where
  "scored_db cn =
     (if cn = ''user'' then [[''_id'' \<mapsto> VInt 1, ''name'' \<mapsto> VStr ''a'', ''score'' \<mapsto> VInt 5]]
      else [])"

definition scored_world :: world where
  "scored_world = fresh_world\<lparr>bind := Some scored_db\<rparr>"

text \<open>The example session after the user has been read: cached and tracked as clean.\<close>

definition cached_world :: world where
  "cached_world = fresh_world\<lparr>imap := [(''User'', VInt 1) \<mapsto> 0], uow := [0 \<mapsto> Clean]\<rparr>"

text \<open>
  A class whose schema rejects a document without a score, and the example session
  with the in-memory document of that class.
\<close>

definition Strict :: cls where
  "Strict = User\<lparr>cls_name := ''Strict'',
     schema := Some (\<lambda>d. if ''score'' \<in> dom d then Inr d
                          else Inl (ValidationError ''score: missing''))\<rparr>"

definition strict_world :: world where
  "strict_world =
     fresh_world\<lparr>heap := (\<lambda>r. \<lparr>obj_cls = Strict,
        obj_fields = [''_id'' \<mapsto> VInt 1, ''name'' \<mapsto> VStr ''a'']\<rparr>)\<rparr>"

text \<open>
  A session for a partial save: the in-memory user has been renamed to \<open>b\<close> and has
  no score, the stored record still has the old name and a score set independently,
  and a second user is stored beside it.
\<close>

definition renamed_db :: "string \<Rightarrow> doc list" where
  "renamed_db cn =
     (if cn = ''user''
      then [[''_id'' \<mapsto> VInt 1, ''name'' \<mapsto> VStr ''a'', ''score'' \<mapsto> VInt 7],
            [''_id'' \<mapsto> VInt 2, ''name'' \<mapsto> VStr ''c'']]
      else [])"

definition renamed_world :: world where
  "renamed_world =
     fresh_world\<lparr>bind := Some renamed_db,
       heap := (\<lambda>r. \<lparr>obj_cls = User,
         obj_fields = [''_id'' \<mapsto> VInt 1, ''name'' \<mapsto> VStr ''b'']\<rparr>)\<rparr>"

subsection \<open>Sequences of session calls\<close>

text \<open>
  The calls an application can make between two reads. A call that raises leaves the
  world as it is at the raise, and the application goes on.
\<close>

datatype op =
    Get cls "(string \<times> val) list"
  | Save ref "string list"
  | Insert ref
  | Upsert ref spec_fields
  | Delete ref
  | IncreaseField ref "(string \<times> val) list"
  | Soil ref
  | JoinNew ref
  | Clear

fun step :: "world \<Rightarrow> op \<Rightarrow> world" where
  "step s (Get c kwargs) = snd (get s c kwargs)"
| "step s (Save r args) = snd (save s r args)"
| "step s (Insert r) = snd (insert_doc s r)"
| "step s (Upsert r sf) = snd (upsert s r sf)"
| "step s (Delete r) = snd (delete s r)"
| "step s (IncreaseField r kwargs) = snd (increase_field s r kwargs)"
| "step s (Soil r) = soil s r"
| "step s (JoinNew r) = snd (join_new s r)"
| "step s Clear = clear s"

definition run :: "world \<Rightarrow> op list \<Rightarrow> world" where
  "run s ops = foldl step s ops"

text \<open>A class whose \<open>make\<close> keeps the primary key of the raw record.\<close>

definition keeps_id :: "cls \<Rightarrow> bool" where
  "keeps_id c = (\<forall>fl b d. make_obj c fl b = Inr d \<longrightarrow> d ''_id'' = b ''_id'')"

text \<open>
  The calls that leave the entries of the identity map in place: all but \<open>clear\<close>,
  which evicts them, and \<open>join_new\<close>, which registers an object of the caller's.
\<close>

fun retains :: "op \<Rightarrow> bool" where
  "retains Clear = False"
| "retains (JoinNew r) = False"
| "retains (Get c kwargs) = keeps_id c"
| "retains x = True"

text \<open>
  A well-formed identity map: every entry is an allocated object of the class it is
  filed under.
\<close>

definition imap_ok :: "world \<Rightarrow> bool" where
  "imap_ok s = (\<forall>n k r. imap s (n, k) = Some r \<longrightarrow> r < next_ref s \<and> cls_name (class_of s r) = n)"

text \<open>Two worlds with the same identity map, allocation mark and object classes.\<close>

definition same_registry :: "world \<Rightarrow> world \<Rightarrow> bool" where
  "same_registry s s' =
     (imap s' = imap s \<and> next_ref s' = next_ref s \<and> (\<forall>r. class_of s' r = class_of s r))"

section \<open>Auxiliary lemmas\<close>

lemma val_lt_irrefl: "\<not> val_lt v v"
  by (cases v) simp_all

lemma val_lt_asym: "val_lt v w \<Longrightarrow> \<not> val_lt w v"
  by (cases v; cases w) auto

lemma matches_pair: "matches [(a, c1), (b, c2)] d = (cond_holds (d a) c1 \<and> cond_holds (d b) c2)"
  by (simp add: matches_def)

lemma matches_single: "matches [(a, c1)] d = cond_holds (d a) c1"
  by (simp add: matches_def)

lemma modify_first_none: "\<not> list_ex P c \<Longrightarrow> modify_first P f c = c"
  by (induction c) auto

lemma coll_update_no_upsert:
  "coll_update sp u False fresh c = modify_first (matches sp) (apply_update u) c"
  by (simp add: coll_update_def modify_first_none)

lemma modify_first_unique:
  assumes "distinct (map key c)" and "\<And>d. P d \<Longrightarrow> key d = k"
  shows "modify_first P f c = map (\<lambda>d. if P d then f d else d) c"
  using assms(1)
proof (induction c)
  case Nil
  then show ?case by simp
next
  case (Cons d ds)
  show ?case
  proof (cases "P d")
    case True
    have "\<And>d'. d' \<in> set ds \<Longrightarrow> \<not> P d'"
    proof
      fix d' assume m: "d' \<in> set ds" and p: "P d'"
      from p have "key d' = k" by (rule assms(2))
      moreover from True have "key d = k" by (rule assms(2))
      ultimately have "key d \<in> key ` set ds" using m by force
      with Cons.prems show False by simp
    qed
    then have "map (\<lambda>d. if P d then f d else d) ds = ds"
      by (simp add: map_idI)
    with True show ?thesis by simp
  next
    case False
    with Cons show ?thesis by simp
  qed
qed

lemma find_map_key:
  assumes "\<And>d. key (g d) = key d"
  shows "find (\<lambda>d. key d = k) (map g c) = map_option g (find (\<lambda>d. key d = k) c)"
  by (induction c) (simp_all add: assms)

lemma find_one_by_id:
  assumes "list_all (\<lambda>d. d ''_id'' \<noteq> None) c"
  shows "coll_find_one [(''_id'', Eq k)] c = find (\<lambda>d. d ''_id'' = Some k) c"
  using assms by (induction c) (auto simp: coll_find_one_def matches_single)

lemma set_if_id: "key \<noteq> ''_id'' \<Longrightarrow> set_if k key c v d ''_id'' = d ''_id''"
  by (simp add: set_if_def)

lemma guarded_coll_update:
  assumes u: "unique_ids c" and key: "key \<noteq> ''_id''"
  shows "coll_update [(''_id'', Eq k), (key, cd)] (Set [key \<mapsto> v]) False fresh c = map (set_if k key cd v) c"
proof -
  let ?P = "\<lambda>d. d ''_id'' = Some k \<and> cond_holds (d key) cd"
  have has: "\<And>d. d \<in> set c \<Longrightarrow> d ''_id'' \<noteq> None"
    using u by (simp add: unique_ids_def list_all_iff)
  have eqP: "matches [(''_id'', Eq k), (key, cd)] d = ?P d" if "d \<in> set c" for d
  proof -
    from has [OF that] obtain y where "d ''_id'' = Some y" by blast
    then show ?thesis by (auto simp: matches_pair)
  qed
  have "modify_first (matches [(''_id'', Eq k), (key, cd)]) (apply_update (Set [key \<mapsto> v])) c
        = modify_first ?P (\<lambda>d. d(key \<mapsto> v)) c"
    using eqP by (induction c) auto
  also have "\<dots> = map (\<lambda>d. if ?P d then d(key \<mapsto> v) else d) c"
    by (rule modify_first_unique [where key = "\<lambda>d. d ''_id''" and k = "Some k"])
       (use u in \<open>simp_all add: unique_ids_def\<close>)
  finally show ?thesis
    by (simp add: coll_update_no_upsert set_if_def [abs_def])
qed

lemma unique_ids_map:
  assumes "unique_ids c" and "\<And>d. g d ''_id'' = d ''_id''"
  shows "unique_ids (map g c)"
proof -
  have "map (\<lambda>d. d ''_id'') (map g c) = map (\<lambda>d. d ''_id'') c"
    by (simp add: assms(2))
  with assms show ?thesis
    by (simp add: unique_ids_def list_all_iff o_def)
qed

lemma stored_storage_update:
  "bind s \<noteq> None \<Longrightarrow>
   stored (storage_update cn sp u ups s) cn' =
     (if cn' = cn then coll_update sp u ups (VOid (next_oid s)) (stored s cn) else stored s cn')"
  by (auto simp: storage_update_def record_call_def put_coll_def stored_def)

lemma heap_storage_update: "heap (storage_update cn sp u ups s) = heap s"
  by (simp add: storage_update_def record_call_def put_coll_def)

lemma bound_storage_update: "bind s \<noteq> None \<Longrightarrow> bind (storage_update cn sp u ups s) \<noteq> None"
  by (simp add: storage_update_def record_call_def put_coll_def)

lemma calls_storage_update:
  "calls (storage_update cn sp u ups s) = calls s @ [Update cn sp u ups]"
  by (simp add: storage_update_def record_call_def put_coll_def)

lemma guarded_update_ok:
  assumes "bind s \<noteq> None" and "doc_of s r ''_id'' = Some k" and "key \<noteq> ''_id''"
  shows "guarded_update s r key c v =
     (Inr (), storage_update (coll_name (class_of s r)) [(''_id'', Eq k), (key, c)]
                (Set [key \<mapsto> v]) False s)"
  using assms by (auto simp: guarded_update_def impl_def)

lemma heap_init_step: "heap (init_step s r key k v) = heap s"
  by (simp add: init_step_def heap_storage_update)

lemma bound_init_step: "bind s \<noteq> None \<Longrightarrow> bind (init_step s r key k v) \<noteq> None"
  unfolding init_step_def using bound_storage_update by (cases "key \<in> dom (doc_of s r)") auto

lemma increase_field_ok:
  assumes b: "bind s \<noteq> None" and i: "doc_of s r ''_id'' = Some k"
    and v: "v \<noteq> VNone" and key: "key \<noteq> ''_id''"
  shows "increase_field s r ((key, v) # rest) =
     (Inr (), storage_update (coll_name (class_of s r)) [(''_id'', Eq k), (key, Lt v)]
                (Set [key \<mapsto> v]) False (init_step s r key k v))"
proof -
  let ?s1 = "init_step s r key k v"
  have h: "heap ?s1 = heap s" by (rule heap_init_step)
  have b1: "bind ?s1 \<noteq> None" using b by (rule bound_init_step)
  have i1: "doc_of ?s1 r ''_id'' = Some k" using i h by (simp add: doc_of_def)
  have c1: "class_of ?s1 r = class_of s r" using h by (simp add: class_of_def)
  have first: "(if key \<notin> dom (doc_of s r) then guarded_update s r key (Eq VNone) v else (Inr (), s))
      = (Inr (), ?s1)"
    using guarded_update_ok [OF b i key, of "Eq VNone" v] by (simp add: init_step_def)
  have second: "guarded_update ?s1 r key (Lt v) v =
      (Inr (), storage_update (coll_name (class_of s r)) [(''_id'', Eq k), (key, Lt v)]
                 (Set [key \<mapsto> v]) False ?s1)"
    using guarded_update_ok [OF b1 i1 key, of "Lt v" v] c1 by simp
  show ?thesis
    using v first second by (simp add: increase_field_def)
qed

lemmas fixture_defs = User_def user_db_def fresh_world_def local_score_world_def

lemma increase_step:
  assumes b: "bind s \<noteq> None" and i: "doc_of s r ''_id'' = Some k"
    and v: "v \<noteq> VNone" and key: "key \<noteq> ''_id''"
    and u: "unique_ids (stored s (coll_name (class_of s r)))"
  shows "\<exists>s1. increase_field s r [(key, v)] = (Inr (), s1) \<and> heap s1 = heap s \<and> bind s1 \<noteq> None \<and>
           stored s1 (coll_name (class_of s r)) =
             map (set_if k key (Lt v) v)
               (if key \<in> dom (doc_of s r) then stored s (coll_name (class_of s r))
                else map (set_if k key (Eq VNone) v) (stored s (coll_name (class_of s r))))"
proof -
  let ?cn = "coll_name (class_of s r)"
  let ?s0 = "init_step s r key k v"
  let ?c0 = "if key \<in> dom (doc_of s r) then stored s ?cn
             else map (set_if k key (Eq VNone) v) (stored s ?cn)"
  let ?s1 = "storage_update ?cn [(''_id'', Eq k), (key, Lt v)] (Set [key \<mapsto> v]) False ?s0"
  have b0: "bind ?s0 \<noteq> None" using b by (rule bound_init_step)
  have st0: "stored ?s0 ?cn = ?c0"
    using b u key by (simp add: init_step_def stored_storage_update guarded_coll_update)
  have u0: "unique_ids ?c0"
    using u key by (simp add: unique_ids_map set_if_id)
  have "increase_field s r [(key, v)] = (Inr (), ?s1)"
    by (rule increase_field_ok [OF b i v key])
  moreover have "heap ?s1 = heap s"
    by (simp add: heap_storage_update heap_init_step)
  moreover have "bind ?s1 \<noteq> None"
    using b0 by (rule bound_storage_update)
  moreover have "stored ?s1 ?cn = map (set_if k key (Lt v) v) ?c0"
    using b0 u0 key st0 by (simp add: stored_storage_update guarded_coll_update)
  ultimately show ?thesis by blast
qed

lemma stored_field_map:
  assumes u: "unique_ids c" and g: "\<And>d. g d ''_id'' = d ''_id''"
  shows "map_option (\<lambda>d. d key) (coll_find_one [(''_id'', Eq k)] (map g c))
       = map_option (\<lambda>d. g d key) (coll_find_one [(''_id'', Eq k)] c)"
proof -
  have a: "list_all (\<lambda>d. d ''_id'' \<noteq> None) c"
    using u by (simp add: unique_ids_def)
  have "unique_ids (map g c)"
    using u by (rule unique_ids_map) (rule g)
  then have a': "list_all (\<lambda>d. d ''_id'' \<noteq> None) (map g c)"
    by (simp add: unique_ids_def)
  show ?thesis
    using find_map_key [where key = "\<lambda>d. d ''_id''" and g = g and k = "Some k" and c = c] g
    by (simp add: find_one_by_id [OF a] find_one_by_id [OF a'] option.map_comp o_def)
qed

lemma found_has_id:
  assumes "unique_ids c" and "coll_find_one [(''_id'', Eq k)] c = Some d"
  shows "d ''_id'' = Some k \<and> d \<in> set c"
proof -
  have a: "list_all (\<lambda>d. d ''_id'' \<noteq> None) c"
    using assms(1) by (simp add: unique_ids_def)
  from assms(2) have "find (\<lambda>d. d ''_id'' = Some k) c = Some d"
    by (simp add: find_one_by_id [OF a])
  then show ?thesis
    by (auto simp: find_Some_iff)
qed

lemma found_unique:
  assumes u: "unique_ids c" and f: "coll_find_one [(''_id'', Eq k)] c = Some d"
    and m: "d' \<in> set c" and e: "d' ''_id'' = Some k"
  shows "d' = d"
proof -
  have inj: "inj_on (\<lambda>d. d ''_id'') (set c)"
    using u by (simp add: unique_ids_def distinct_map)
  have d: "d ''_id'' = Some k" "d \<in> set c"
    using found_has_id [OF u f] by simp_all
  have "d' ''_id'' = d ''_id''"
    using e d(1) by simp
  with inj m d(2) show ?thesis
    unfolding inj_on_def by blast
qed

lemma increase_step_unset:
  assumes b: "bind s \<noteq> None" and i: "doc_of s r ''_id'' = Some k"
    and nk: "key \<notin> dom (doc_of s r)" and key: "key \<noteq> ''_id''"
    and u: "unique_ids (stored s (coll_name (class_of s r)))"
    and f: "stored_field s (coll_name (class_of s r)) k key = Some x"
  shows "\<exists>s1. increase_field s r [(key, VInt n)] = (Inr (), s1) \<and> heap s1 = heap s \<and>
           bind s1 \<noteq> None \<and> unique_ids (stored s1 (coll_name (class_of s r))) \<and>
           stored_field s1 (coll_name (class_of s r)) k key =
             Some (Some (case x of Some (VInt a) \<Rightarrow> VInt (max a n) | Some VNone \<Rightarrow> VInt n
                          | None \<Rightarrow> VInt n | Some w \<Rightarrow> w))"
proof -
  let ?cn = "coll_name (class_of s r)"
  let ?g1 = "set_if k key (Eq VNone) (VInt n)"
  let ?g2 = "set_if k key (Lt (VInt n)) (VInt n)"
  from increase_step [OF b i _ key u, of "VInt n"] nk
  obtain s1 where s1: "increase_field s r [(key, VInt n)] = (Inr (), s1)" "heap s1 = heap s"
      "bind s1 \<noteq> None" "stored s1 ?cn = map ?g2 (map ?g1 (stored s ?cn))"
    by auto
  have u1: "unique_ids (map ?g1 (stored s ?cn))"
    using u key by (simp add: unique_ids_map set_if_id)
  have "unique_ids (map ?g2 (map ?g1 (stored s ?cn)))"
    using u1 by (rule unique_ids_map) (simp add: set_if_id key)
  then have u2: "unique_ids (stored s1 ?cn)"
    by (simp only: s1(4))
  from f obtain d where d: "coll_find_one [(''_id'', Eq k)] (stored s ?cn) = Some d" "d key = x"
    by (auto simp: stored_field_def)
  have did: "d ''_id'' = Some k" using found_has_id [OF u d(1)] by simp
  have "stored_field s1 ?cn k key = Some (?g2 (?g1 d) key)"
    using d(1) key
    by (simp add: stored_field_def s1(4) stored_field_map [OF u1] stored_field_map [OF u] set_if_id)
  moreover have "?g2 (?g1 d) key =
      Some (case x of Some (VInt a) \<Rightarrow> VInt (max a n) | Some VNone \<Rightarrow> VInt n
                          | None \<Rightarrow> VInt n | Some w \<Rightarrow> w)"
    using did d(2) key by (auto simp: set_if_def max_def split: option.splits val.splits)
  ultimately show ?thesis using s1 u2 by simp
qed

lemma increase_seq_from_int:
  assumes "bind s \<noteq> None" and "doc_of s r ''_id'' = Some k"
    and "key \<notin> dom (doc_of s r)" and "key \<noteq> ''_id''"
    and "unique_ids (stored s (coll_name (class_of s r)))"
    and "stored_field s (coll_name (class_of s r)) k key = Some (Some (VInt a))"
  shows "\<exists>s'. increase_seq s r key (map VInt ns) = (Inr (), s') \<and>
           stored_field s' (coll_name (class_of s r)) k key = Some (Some (VInt (fold max ns a)))"
  using assms
proof (induction ns arbitrary: s a)
  case Nil
  then show ?case by simp
next
  case (Cons n ns)
  from increase_step_unset [OF Cons.prems(1-5) Cons.prems(6), of n]
  obtain s1 where s1: "increase_field s r [(key, VInt n)] = (Inr (), s1)" "heap s1 = heap s"
      "bind s1 \<noteq> None" "unique_ids (stored s1 (coll_name (class_of s r)))"
      "stored_field s1 (coll_name (class_of s r)) k key = Some (Some (VInt (max a n)))"
    by auto
  have same: "doc_of s1 r = doc_of s r" "class_of s1 r = class_of s r"
    using s1(2) by (simp_all add: doc_of_def class_of_def)
  have "\<exists>s'. increase_seq s1 r key (map VInt ns) = (Inr (), s') \<and>
           stored_field s' (coll_name (class_of s1 r)) k key = Some (Some (VInt (fold max ns (max a n))))"
    by (rule Cons.IH) (use s1 same Cons.prems in simp_all)
  then show ?case using s1(1) same by (simp add: max.commute)
qed

lemma guarded_update_heap: "heap (snd (guarded_update s r key c v)) = heap s"
  by (simp add: guarded_update_def storage_update_def record_call_def put_coll_def
      split: sum.splits option.splits)

lemma guarded_update_not_ValueError: "fst (guarded_update s r key c v) \<noteq> Inl (ValueError m)"
  by (simp add: guarded_update_def impl_def split: sum.splits option.splits)

lemma increase_field_ValueError:
  assumes a: "fst (increase_field s r kwargs) = Inl (ValueError m)"
  shows "\<exists>key rest. kwargs = (key, VNone) # rest"
proof (cases kwargs)
  case Nil
  with a show ?thesis by (simp add: increase_field_def)
next
  case (Cons p rest)
  obtain key v where p: "p = (key, v)" by (cases p)
  show ?thesis
  proof (cases "v = VNone")
    case True
    with Cons p show ?thesis by simp
  next
    case False
    obtain res s1 where g: "guarded_update s r key (Eq VNone) v = (res, s1)"
      by (cases "guarded_update s r key (Eq VNone) v")
    have n1: "res \<noteq> Inl (ValueError m)"
      using guarded_update_not_ValueError [of s r key "Eq VNone" v m] g by simp
    have n2: "fst (guarded_update s1 r key (Lt v) v) \<noteq> Inl (ValueError m)"
      by (rule guarded_update_not_ValueError)
    have n3: "fst (guarded_update s r key (Lt v) v) \<noteq> Inl (ValueError m)"
      by (rule guarded_update_not_ValueError)
    from a Cons p False g n1 n2 n3 have False
      by (simp add: increase_field_def split: if_splits sum.splits)
    then show ?thesis ..
  qed
qed

lemma set_fields_facts:
  "bind (set_fields s r d) = bind s"
  "calls (set_fields s r d) = calls s"
  "class_of (set_fields s r d) r' = class_of s r'"
  "doc_of (set_fields s r d) r = d"
  by (simp_all add: set_fields_def class_of_def doc_of_def)

section \<open>Properties of \<open>increase_field\<close>\<close>

text \<open>
  Claim C3. The claim has the initialising set issued whenever the field is unset on
  the stored record, as the code's own comment (the predicate on the stored record,
  \<open>!(key in this) || this.key < value\<close>) and docstring intend. The code tests
  \<open>key not in doc\<close> on the in-memory object instead. At this input the stored record
  has no score and the in-memory document has one: \<open>increase_field(doc, score=5)\<close>
  issues the conditional update alone, no initialising set, and the stored field
  stays unset.
\<close>

theorem increase_field_skips_init_failing_input:
  "stored_field local_score_world ''user'' (VInt 1) ''score'' = Some None \<and>
   doc_of local_score_world 0 ''score'' = Some (VInt 0) \<and>
   fst (increase_field local_score_world 0 [(''score'', VInt 5)]) = Inr () \<and>
   calls (snd (increase_field local_score_world 0 [(''score'', VInt 5)])) =
     [Update ''user'' [(''_id'', Eq (VInt 1)), (''score'', Lt (VInt 5))] (Set [''score'' \<mapsto> VInt 5]) False] \<and>
   stored_field (snd (increase_field local_score_world 0 [(''score'', VInt 5)])) ''user'' (VInt 1) ''score'' = Some None"
  by (simp add: fixture_defs increase_field_def guarded_update_def impl_def doc_of_def class_of_def
      storage_update_def record_call_def put_coll_def stored_def coll_update_def matches_def
      stored_field_def coll_find_one_def)

text \<open>
  Claim C5. \<open>increase_field\<close> called with a \<open>None\<close> value raises \<open>ValueError\<close> and
  leaves the whole world, the store included, as it was: no storage call is made.
  Whenever \<open>increase_field\<close> raises \<open>ValueError\<close>, the world is unchanged.
\<close>

theorem increase_field_none_rejected:
  "increase_field s r ((key, VNone) # rest) = (Inl (ValueError (key @ ''=None'')), s) \<and>
   (\<forall>kwargs m. fst (increase_field s r kwargs) = Inl (ValueError m) \<longrightarrow>
      snd (increase_field s r kwargs) = s)"
proof (intro conjI allI impI)
  show "increase_field s r ((key, VNone) # rest) = (Inl (ValueError (key @ ''=None'')), s)"
    by (simp add: increase_field_def)
next
  fix kwargs m
  assume "fst (increase_field s r kwargs) = Inl (ValueError m)"
  then obtain k rest' where "kwargs = (k, VNone) # rest'"
    using increase_field_ValueError by blast
  then show "snd (increase_field s r kwargs) = s"
    by (simp add: increase_field_def)
qed

text \<open>Witness for C5: \<open>increase_field(doc, score=None)\<close> on the example session.\<close>

theorem increase_field_none_rejected_witness:
  "increase_field fresh_world 0 [(''score'', VNone)] = (Inl (ValueError ''score=None''), fresh_world) \<and>
   fst (increase_field fresh_world 0 [(''score'', VNone)]) = Inl (ValueError ''score=None'') \<and>
   snd (increase_field fresh_world 0 [(''score'', VNone)]) = fresh_world"
proof -
  note t = increase_field_none_rejected [of fresh_world 0 "''score''" "[]"]
  from t have a: "increase_field fresh_world 0 [(''score'', VNone)]
      = (Inl (ValueError ''score=None''), fresh_world)"
    by simp
  then have b: "fst (increase_field fresh_world 0 [(''score'', VNone)]) = Inl (ValueError ''score=None'')"
    by simp
  from t b have "snd (increase_field fresh_world 0 [(''score'', VNone)]) = fresh_world"
    by blast
  with a b show ?thesis by simp
qed

text \<open>
  Claim C6. \<open>increase_field\<close> never mutates an in-memory object: whatever the
  arguments and the outcome, the heap of document objects after the call is the heap
  before it.
\<close>

theorem increase_field_keeps_heap: "heap (snd (increase_field s r kwargs)) = heap s"
proof (cases kwargs)
  case Nil
  then show ?thesis by (simp add: increase_field_def)
next
  case (Cons p rest)
  obtain key v where p: "p = (key, v)" by (cases p)
  show ?thesis
  proof (cases "guarded_update s r key (Eq VNone) v")
    case (Pair res s1)
    then have "heap s1 = heap s"
      using guarded_update_heap [of s r key "Eq VNone" v] by simp
    then show ?thesis
      using Cons p Pair guarded_update_heap [of s1 r key "Lt v" v]
        guarded_update_heap [of s r key "Lt v" v]
      by (simp add: increase_field_def split: sum.splits)
  qed
qed

text \<open>
  Claim C10, as amended. \<open>increase_field\<close> called with several keyword pairs
  processes exactly the first pair of the keyword dict and ignores the others,
  whatever their values: the call equals the call on the first pair alone. When the
  first value is \<open>None\<close> it raises \<open>ValueError\<close> for that key with the world
  unchanged; otherwise, on a bound session and for a document with primary key \<open>k\<close>,
  it returns normally and the storage calls it has issued are those for the first
  pair only: the guarded initialising update (when the field is missing from the
  in-memory document) and the conditional update of that field to that value.
\<close>

theorem increase_field_first_pair_only:
  "increase_field s r ((key, v) # rest) = increase_field s r [(key, v)] \<and>
   (v = VNone \<longrightarrow>
      increase_field s r ((key, v) # rest) = (Inl (ValueError (key @ ''=None'')), s)) \<and>
   (v \<noteq> VNone \<and> bind s \<noteq> None \<and> doc_of s r ''_id'' = Some k \<and> key \<noteq> ''_id'' \<longrightarrow>
      increase_field s r ((key, v) # rest) =
        (Inr (), storage_update (coll_name (class_of s r)) [(''_id'', Eq k), (key, Lt v)]
                   (Set [key \<mapsto> v]) False (init_step s r key k v)) \<and>
      calls (snd (increase_field s r ((key, v) # rest))) =
        calls s
        @ (if key \<in> dom (doc_of s r) then []
           else [Update (coll_name (class_of s r)) [(''_id'', Eq k), (key, Eq VNone)]
                   (Set [key \<mapsto> v]) False])
        @ [Update (coll_name (class_of s r)) [(''_id'', Eq k), (key, Lt v)]
             (Set [key \<mapsto> v]) False])"
proof (intro conjI impI)
  show "increase_field s r ((key, v) # rest) = increase_field s r [(key, v)]"
    by (simp add: increase_field_def)
next
  assume "v = VNone"
  then show "increase_field s r ((key, v) # rest) = (Inl (ValueError (key @ ''=None'')), s)"
    by (simp add: increase_field_def)
next
  assume a: "v \<noteq> VNone \<and> bind s \<noteq> None \<and> doc_of s r ''_id'' = Some k \<and> key \<noteq> ''_id''"
  then have e: "increase_field s r ((key, v) # rest) =
        (Inr (), storage_update (coll_name (class_of s r)) [(''_id'', Eq k), (key, Lt v)]
                   (Set [key \<mapsto> v]) False (init_step s r key k v))"
    by (intro increase_field_ok) simp_all
  show "increase_field s r ((key, v) # rest) =
        (Inr (), storage_update (coll_name (class_of s r)) [(''_id'', Eq k), (key, Lt v)]
                   (Set [key \<mapsto> v]) False (init_step s r key k v))"
    by (rule e)
  show "calls (snd (increase_field s r ((key, v) # rest))) =
        calls s
        @ (if key \<in> dom (doc_of s r) then []
           else [Update (coll_name (class_of s r)) [(''_id'', Eq k), (key, Eq VNone)]
                   (Set [key \<mapsto> v]) False])
        @ [Update (coll_name (class_of s r)) [(''_id'', Eq k), (key, Lt v)]
             (Set [key \<mapsto> v]) False]"
    by (simp add: e calls_storage_update init_step_def)
qed

text \<open>
  Witness for C10: \<open>increase_field(doc, score=5, name=None)\<close> on the example session
  returns normally, issues the two updates of the score only, stores the score 5 and
  leaves the stored name alone.
\<close>

theorem increase_field_first_pair_only_witness:
  "VInt 5 \<noteq> VNone \<and> bind fresh_world \<noteq> None \<and> doc_of fresh_world 0 ''_id'' = Some (VInt 1) \<and>
   ''score'' \<noteq> ''_id'' \<and>
   fst (increase_field fresh_world 0 [(''score'', VInt 5), (''name'', VNone)]) = Inr () \<and>
   calls (snd (increase_field fresh_world 0 [(''score'', VInt 5), (''name'', VNone)])) =
     [Update ''user'' [(''_id'', Eq (VInt 1)), (''score'', Eq VNone)] (Set [''score'' \<mapsto> VInt 5]) False,
      Update ''user'' [(''_id'', Eq (VInt 1)), (''score'', Lt (VInt 5))] (Set [''score'' \<mapsto> VInt 5]) False] \<and>
   stored_field (snd (increase_field fresh_world 0 [(''score'', VInt 5), (''name'', VNone)]))
     ''user'' (VInt 1) ''score'' = Some (Some (VInt 5)) \<and>
   stored_field (snd (increase_field fresh_world 0 [(''score'', VInt 5), (''name'', VNone)]))
     ''user'' (VInt 1) ''name'' = Some (Some (VStr ''a''))"
proof -
  let ?kw = "[(''score'', VInt 5), (''name'', VNone)]"
  have h: "VInt 5 \<noteq> VNone \<and> bind fresh_world \<noteq> None \<and>
      doc_of fresh_world 0 ''_id'' = Some (VInt 1) \<and> ''score'' \<noteq> ''_id''"
    by (simp add: fixture_defs doc_of_def)
  note t = increase_field_first_pair_only [of fresh_world 0 "''score''" "VInt 5"
      "[(''name'', VNone)]" "VInt 1", THEN conjunct2, THEN conjunct2, rule_format, OF h]
  have a: "fst (increase_field fresh_world 0 ?kw) = Inr ()"
    by (subst t [THEN conjunct1]) simp
  have b: "calls (snd (increase_field fresh_world 0 ?kw)) =
     [Update ''user'' [(''_id'', Eq (VInt 1)), (''score'', Eq VNone)] (Set [''score'' \<mapsto> VInt 5]) False,
      Update ''user'' [(''_id'', Eq (VInt 1)), (''score'', Lt (VInt 5))] (Set [''score'' \<mapsto> VInt 5]) False]"
    by (subst t [THEN conjunct2]) (simp add: fixture_defs doc_of_def class_of_def)
  have c: "stored_field (snd (increase_field fresh_world 0 ?kw)) ''user'' (VInt 1) ''score''
      = Some (Some (VInt 5))"
    by (subst t [THEN conjunct1])
       (simp add: fixture_defs init_step_def doc_of_def class_of_def storage_update_def
          record_call_def put_coll_def stored_def coll_update_def matches_def stored_field_def
          coll_find_one_def)
  have d: "stored_field (snd (increase_field fresh_world 0 ?kw)) ''user'' (VInt 1) ''name''
      = Some (Some (VStr ''a''))"
    by (subst t [THEN conjunct1])
       (simp add: fixture_defs init_step_def doc_of_def class_of_def storage_update_def
          record_call_def put_coll_def stored_def coll_update_def matches_def stored_field_def
          coll_find_one_def)
  from h a b c d show ?thesis by blast
qed

text \<open>
  Counterexample to C10 as stated: a call with two pairs whose first value is \<open>None\<close>
  does raise the invalid-argument error.
\<close>

theorem increase_field_first_none_counterexample:
  "fst (increase_field fresh_world 0 [(''score'', VNone), (''name'', VStr ''b'')])
     = Inl (ValueError ''score=None'')"
  by (simp add: increase_field_def)

subsection \<open>Monotonic increase\<close>

lemma set_if_noop:
  assumes u: "unique_ids c" and f: "coll_find_one [(''_id'', Eq k)] c = Some d0"
    and w: "d0 key = Some w" and n: "\<not> cond_holds (Some w) cd"
  shows "map (set_if k key cd v) c = c"
proof (rule map_idI)
  fix d assume m: "d \<in> set c"
  show "set_if k key cd v d = d"
  proof (cases "d ''_id'' = Some k")
    case True
    have "d = d0" using u f m True by (rule found_unique)
    with w n show ?thesis by (simp add: set_if_def)
  next
    case False
    then show ?thesis by (simp add: set_if_def)
  qed
qed

lemma bind_storage_update_same:
  assumes "coll_update sp u ups (VOid (next_oid s)) (stored s cn) = stored s cn"
  shows "bind (storage_update cn sp u ups s) = bind s"
proof (cases "bind s")
  case None
  then show ?thesis by (simp add: storage_update_def record_call_def put_coll_def)
next
  case (Some db)
  with assms have "coll_update sp u ups (VOid (next_oid s)) (db cn) = db cn"
    by (simp add: stored_def)
  with Some show ?thesis
    by (simp add: storage_update_def record_call_def put_coll_def stored_def)
qed

lemma stored_cong: "bind s' = bind s \<Longrightarrow> stored s' cn = stored s cn"
  by (simp add: stored_def)

lemma increase_smaller_unchanged:
  assumes b: "bind s \<noteq> None" and i: "doc_of s r ''_id'' = Some k"
    and key: "key \<noteq> ''_id''"
    and u: "unique_ids (stored s (coll_name (class_of s r)))"
    and f: "stored_field s (coll_name (class_of s r)) k key = Some (Some w)"
    and lt: "val_lt v w"
  shows "fst (increase_field s r [(key, v)]) = Inr () \<and>
         bind (snd (increase_field s r [(key, v)])) = bind s"
proof -
  let ?cn = "coll_name (class_of s r)"
  let ?s0 = "init_step s r key k v"
  let ?s1 = "storage_update ?cn [(''_id'', Eq k), (key, Lt v)] (Set [key \<mapsto> v]) False ?s0"
  from lt have v: "v \<noteq> VNone" by (cases v) auto
  from lt have wn: "w \<noteq> VNone" by (cases v; cases w) auto
  from f obtain d0 where d0: "coll_find_one [(''_id'', Eq k)] (stored s ?cn) = Some d0"
      "d0 key = Some w"
    by (auto simp: stored_field_def)
  have n1: "\<not> cond_holds (Some w) (Eq VNone)" using wn by simp
  have n2: "\<not> cond_holds (Some w) (Lt v)" using lt by (simp add: val_lt_asym)
  have c1: "coll_update [(''_id'', Eq k), (key, Eq VNone)] (Set [key \<mapsto> v]) False fresh (stored s ?cn)
        = stored s ?cn" for fresh
    using set_if_noop [OF u d0 n1] by (simp add: guarded_coll_update [OF u key])
  have c2: "coll_update [(''_id'', Eq k), (key, Lt v)] (Set [key \<mapsto> v]) False fresh (stored s ?cn)
        = stored s ?cn" for fresh
    using set_if_noop [OF u d0 n2] by (simp add: guarded_coll_update [OF u key])
  have b0: "bind ?s0 = bind s"
    by (simp add: init_step_def bind_storage_update_same c1)
  have "bind ?s1 = bind ?s0"
    by (rule bind_storage_update_same) (simp add: stored_cong [OF b0] c2)
  with b0 have "bind ?s1 = bind s" by simp
  moreover have "increase_field s r [(key, v)] = (Inr (), ?s1)"
    by (rule increase_field_ok [OF b i v key])
  ultimately show ?thesis by simp
qed

lemma increase_seq_from_unset:
  assumes b: "bind s \<noteq> None" and i: "doc_of s r ''_id'' = Some k"
    and nk: "key \<notin> dom (doc_of s r)" and key: "key \<noteq> ''_id''"
    and u: "unique_ids (stored s (coll_name (class_of s r)))"
    and f: "stored_field s (coll_name (class_of s r)) k key = Some None"
    and ne: "ns \<noteq> []"
  shows "fst (increase_seq s r key (map VInt ns)) = Inr () \<and>
         stored_field (snd (increase_seq s r key (map VInt ns))) (coll_name (class_of s r)) k key
           = Some (Some (VInt (Max (set ns))))"
proof -
  from ne obtain n ns' where ns: "ns = n # ns'" by (cases ns) auto
  from increase_step_unset [OF b i nk key u f, of n]
  obtain s1 where s1: "increase_field s r [(key, VInt n)] = (Inr (), s1)" "heap s1 = heap s"
      "bind s1 \<noteq> None" "unique_ids (stored s1 (coll_name (class_of s r)))"
      "stored_field s1 (coll_name (class_of s r)) k key = Some (Some (VInt n))"
    by auto
  have same: "doc_of s1 r = doc_of s r" "class_of s1 r = class_of s r"
    using s1(2) by (simp_all add: doc_of_def class_of_def)
  have "\<exists>s'. increase_seq s1 r key (map VInt ns') = (Inr (), s') \<and>
           stored_field s' (coll_name (class_of s1 r)) k key = Some (Some (VInt (fold max ns' n)))"
    by (rule increase_seq_from_int) (use s1 same i nk key in simp_all)
  then obtain s' where s': "increase_seq s1 r key (map VInt ns') = (Inr (), s')"
      "stored_field s' (coll_name (class_of s r)) k key = Some (Some (VInt (fold max ns' n)))"
    using same by auto
  have "Max (set ns) = fold max ns' n"
    unfolding ns by (rule Max.set_eq_fold)
  with s1(1) s' show ?thesis by (simp add: ns)
qed

text \<open>
  When the field is missing from the in-memory document as well as from the stored
  record, the increase is monotone. On a bound session whose collection is well
  keyed, for a document with primary key \<open>k\<close>: after sequential \<open>increase_field\<close>
  calls with a non-empty list of integers the stored value is their maximum; and a
  call with a value smaller than the stored value returns normally and leaves the
  bound database unchanged.
\<close>

lemma increase_seq_reaches_max:
  assumes "bind s \<noteq> None" and "doc_of s r ''_id'' = Some k" and "key \<noteq> ''_id''"
    and "unique_ids (stored s (coll_name (class_of s r)))"
  shows "(key \<notin> dom (doc_of s r) \<and>
          stored_field s (coll_name (class_of s r)) k key = Some None \<and> ns \<noteq> [] \<longrightarrow>
            fst (increase_seq s r key (map VInt ns)) = Inr () \<and>
            stored_field (snd (increase_seq s r key (map VInt ns))) (coll_name (class_of s r)) k key
              = Some (Some (VInt (Max (set ns))))) \<and>
         (stored_field s (coll_name (class_of s r)) k key = Some (Some w) \<and> val_lt v w \<longrightarrow>
            fst (increase_field s r [(key, v)]) = Inr () \<and>
            bind (snd (increase_field s r [(key, v)])) = bind s)"
  using increase_seq_from_unset [OF assms(1,2) _ assms(3,4)]
    increase_smaller_unchanged [OF assms]
  by blast

lemmas scored_defs = scored_db_def scored_world_def

text \<open>
  On the example session the calls with 3, 5 and 4 leave the stored score at 5; with
  5 stored, a call with 3 changes nothing.
\<close>

lemma increase_seq_reaches_max_example:
  "fst (increase_seq fresh_world 0 ''score'' (map VInt [3, 5, 4])) = Inr () \<and>
   stored_field (snd (increase_seq fresh_world 0 ''score'' (map VInt [3, 5, 4]))) ''user'' (VInt 1) ''score''
     = Some (Some (VInt 5)) \<and>
   fst (increase_field scored_world 0 [(''score'', VInt 3)]) = Inr () \<and>
   bind (snd (increase_field scored_world 0 [(''score'', VInt 3)])) = bind scored_world"
proof -
  have h: "bind fresh_world \<noteq> None" "doc_of fresh_world 0 ''_id'' = Some (VInt 1)"
    "''score'' \<noteq> ''_id''" "unique_ids (stored fresh_world (coll_name (class_of fresh_world 0)))"
    by (simp_all add: fixture_defs doc_of_def class_of_def stored_def unique_ids_def)
  have p: "''score'' \<notin> dom (doc_of fresh_world 0)"
    "stored_field fresh_world (coll_name (class_of fresh_world 0)) (VInt 1) ''score'' = Some None"
    "[3, 5, 4 :: int] \<noteq> []"
    by (simp_all add: fixture_defs doc_of_def class_of_def stored_def stored_field_def
        coll_find_one_def matches_def)
  have cn: "coll_name (class_of fresh_world 0) = ''user''"
    by (simp add: fixture_defs class_of_def)
  have m: "Max (set [3, 5, 4 :: int]) = 5" by simp
  have h': "bind scored_world \<noteq> None" "doc_of scored_world 0 ''_id'' = Some (VInt 1)"
    "''score'' \<noteq> ''_id''" "unique_ids (stored scored_world (coll_name (class_of scored_world 0)))"
    by (simp_all add: fixture_defs scored_defs doc_of_def class_of_def stored_def unique_ids_def)
  have q: "stored_field scored_world (coll_name (class_of scored_world 0)) (VInt 1) ''score''
      = Some (Some (VInt 5))" "val_lt (VInt 3) (VInt 5)"
    by (simp_all add: fixture_defs scored_defs class_of_def stored_def stored_field_def
        coll_find_one_def matches_def)
  from increase_seq_reaches_max [OF h, where ns = "[3, 5, 4]"] p
  have a: "fst (increase_seq fresh_world 0 ''score'' (map VInt [3, 5, 4])) = Inr () \<and>
      stored_field (snd (increase_seq fresh_world 0 ''score'' (map VInt [3, 5, 4]))) ''user'' (VInt 1) ''score''
        = Some (Some (VInt 5))"
    unfolding cn m by blast
  from increase_seq_reaches_max [OF h', where w = "VInt 5" and v = "VInt 3"] q
  have "fst (increase_field scored_world 0 [(''score'', VInt 3)]) = Inr () \<and>
      bind (snd (increase_field scored_world 0 [(''score'', VInt 3)])) = bind scored_world"
    by blast
  with a show ?thesis by simp
qed

text \<open>
  Claim C4. Starting from a stored record without the field, the claim has the stored
  value reach the maximum submitted, as the code's comment and docstring intend. The
  guard \<open>key not in doc\<close> on the in-memory object (the defect of C3) breaks it: at
  this input the in-memory document has a score and the stored record has none, and
  after the sequential calls with 3 and 5 the stored score is still unset, not 5.
\<close>

theorem increase_field_stays_unset_failing_input:
  "stored_field local_score_world ''user'' (VInt 1) ''score'' = Some None \<and>
   fst (increase_seq local_score_world 0 ''score'' [VInt 3, VInt 5]) = Inr () \<and>
   stored_field (snd (increase_seq local_score_world 0 ''score'' [VInt 3, VInt 5]))
     ''user'' (VInt 1) ''score'' = Some None"
  by (simp add: fixture_defs increase_field_def guarded_update_def impl_def doc_of_def class_of_def
      storage_update_def record_call_def put_coll_def stored_def coll_update_def matches_def
      stored_field_def coll_find_one_def)

section \<open>Properties of the read path and of \<open>delete\<close>\<close>

lemma register_facts:
  "calls (snd (register s r)) = calls s"
  "bind (snd (register s r)) = bind s"
  "next_ref (snd (register s r)) = next_ref s"
  "heap (snd (register s r)) = heap s"
  by (simp_all add: register_def imap_save_def uow_save_clean_def split: option.splits)

lemma register_ok:
  assumes "register s r = (Inr r', s')"
  shows "r' = r \<and> (\<exists>k. doc_of s r ''_id'' = Some k \<and>
           imap s' = (imap s)((cls_name (class_of s r), k) \<mapsto> r))"
  using assms
  by (auto simp: register_def imap_save_def uow_save_clean_def doc_of_def class_of_def
      split: option.splits)

lemma fresh_object_calls: "calls (snd (fresh_object s c bson)) = calls s"
proof -
  have a: "calls (snd (register (snd (alloc s c d)) (fst (alloc s c d)))) = calls s" for d
    by (simp add: register_facts alloc_def)
  have b: "calls (snd (register (set_fields s r d) r)) = calls s" for r d
    by (simp add: register_facts set_fields_def)
  show ?thesis
    using a b
    by (simp add: fresh_object_def Let_def split_beta split: option.splits sum.splits)
qed

lemma fresh_object_bind: "bind (snd (fresh_object s c bson)) = bind s"
proof -
  have a: "bind (snd (register (snd (alloc s c d)) (fst (alloc s c d)))) = bind s" for d
    by (simp add: register_facts alloc_def)
  have b: "bind (snd (register (set_fields s r d) r)) = bind s" for r d
    by (simp add: register_facts set_fields_def)
  show ?thesis
    using a b
    by (simp add: fresh_object_def Let_def split_beta split: option.splits sum.splits)
qed

lemma fresh_object_hit:
  assumes hit: "imap_get s c K = Some r" and id: "bson ''_id'' = Some K"
    and ok: "fresh_object s c bson = (Inr r', s')"
  shows "r' = r \<and> next_ref s' = next_ref s \<and>
         (\<exists>d. make_obj c None bson = Inr d \<and> doc_of s' r = doc_of s r ++ d)"
proof -
  from ok hit id obtain d where d: "make_obj c None bson = Inr d"
      and reg: "register (set_fields s r (doc_of s r ++ d)) r = (Inr r', s')"
    by (auto simp: fresh_object_def split: sum.splits)
  from reg have "r' = r" using register_ok by blast
  moreover have "next_ref s' = next_ref s"
    using register_facts(3) [of "set_fields s r (doc_of s r ++ d)" r] reg
    by (simp add: set_fields_def)
  moreover have "doc_of s' r = doc_of s r ++ d"
    using register_facts(4) [of "set_fields s r (doc_of s r ++ d)" r] reg
    by (simp add: set_fields_def doc_of_def)
  ultimately show ?thesis using d by simp
qed

lemma fresh_object_miss:
  assumes mk: "\<And>fl b d. make_obj c fl b = Inr d \<Longrightarrow> d ''_id'' = b ''_id''"
    and miss: "\<And>K. bson ''_id'' = Some K \<Longrightarrow> imap_get s c K = None"
    and ok: "fresh_object s c bson = (Inr r, s')"
  shows "\<exists>K. bson ''_id'' = Some K \<and> imap_get s' c K = Some r"
proof -
  have none: "(case bson ''_id'' of Some k \<Rightarrow> imap_get s c k | None \<Rightarrow> None) = None"
    using miss by (cases "bson ''_id''") simp_all
  from ok none obtain d where d: "make_obj c (Some (False, True)) bson = Inr d"
      and reg: "register (snd (alloc s c d)) (fst (alloc s c d)) = (Inr r, s')"
    by (auto simp: fresh_object_def split_beta split: sum.splits)
  let ?s1 = "snd (alloc s c d)" and ?r1 = "fst (alloc s c d)"
  have cl: "class_of ?s1 ?r1 = c" and dc: "doc_of ?s1 ?r1 = d"
    by (simp_all add: alloc_def class_of_def doc_of_def)
  from register_ok [OF reg] obtain k where r: "r = ?r1" and k: "doc_of ?s1 ?r1 ''_id'' = Some k"
      and im: "imap s' = (imap ?s1)((cls_name (class_of ?s1 ?r1), k) \<mapsto> ?r1)"
    by blast
  have "bson ''_id'' = Some k" using mk [OF d] k dc by simp
  moreover have "imap_get s' c k = Some r"
    using im r cl by (simp add: imap_get_def)
  ultimately show ?thesis by blast
qed

lemma get_hit: "imap_get s c v = Some r \<Longrightarrow> get s c [(''_id'', v)] = (Inr (Some r), s)"
  by (simp add: get_def)

lemma get_miss_unfold:
  assumes "\<And>v. kwargs = [(''_id'', v)] \<Longrightarrow> imap_get s c v = None" and "bind s \<noteq> None"
  shows "get s c kwargs =
     (case coll_find_one (map (\<lambda>(k, v). (k, Eq v)) kwargs) (stored s (coll_name c)) of
        None \<Rightarrow> (Inr None, record_call (FindOne (coll_name c) (map (\<lambda>(k, v). (k, Eq v)) kwargs)) s)
      | Some bson \<Rightarrow>
          (case fresh_object
                  (record_call (FindOne (coll_name c) (map (\<lambda>(k, v). (k, Eq v)) kwargs)) s) c bson of
             (Inl e, s2) \<Rightarrow> (Inl e, s2)
           | (Inr r, s2) \<Rightarrow> (Inr (Some r), s2)))"
proof -
  have "(case kwargs of [] \<Rightarrow> None
         | [(k, v)] \<Rightarrow> if k = ''_id'' then imap_get s c v else None
         | (k, v) # p # ps \<Rightarrow> None) = None"
    using assms(1) by (auto split: list.splits)
  then show ?thesis
    using assms(2)
    by (auto simp: get_def impl_def storage_find_one_def split: option.splits)
qed

text \<open>
  Claim C9. When the filter is exactly \<open>{'_id': v}\<close> and the identity map holds an
  instance for \<open>v\<close>, \<open>get\<close> returns it and leaves the world as it was, so no storage
  call is made. On a bound session, on a miss or with any other filter, exactly one
  find-one with the filter is issued to the store, and when no record matches, \<open>get\<close>
  returns \<open>None\<close> normally.
\<close>

theorem get_cache_then_find_one:
  "(imap_get s c v = Some r \<longrightarrow> get s c [(''_id'', v)] = (Inr (Some r), s)) \<and>
   (bind s \<noteq> None \<and> (\<forall>v. kwargs = [(''_id'', v)] \<longrightarrow> imap_get s c v = None) \<longrightarrow>
      calls (snd (get s c kwargs))
        = calls s @ [FindOne (coll_name c) (map (\<lambda>(k, v). (k, Eq v)) kwargs)] \<and>
      (coll_find_one (map (\<lambda>(k, v). (k, Eq v)) kwargs) (stored s (coll_name c)) = None \<longrightarrow>
         get s c kwargs
           = (Inr None, record_call (FindOne (coll_name c) (map (\<lambda>(k, v). (k, Eq v)) kwargs)) s)))"
proof (intro conjI impI)
  assume "imap_get s c v = Some r"
  then show "get s c [(''_id'', v)] = (Inr (Some r), s)" by (rule get_hit)
next
  assume a: "bind s \<noteq> None \<and> (\<forall>v. kwargs = [(''_id'', v)] \<longrightarrow> imap_get s c v = None)"
  let ?sp = "map (\<lambda>(k, v). (k, Eq v)) kwargs"
  let ?s1 = "record_call (FindOne (coll_name c) ?sp) s"
  have u: "get s c kwargs =
     (case coll_find_one ?sp (stored s (coll_name c)) of
        None \<Rightarrow> (Inr None, ?s1)
      | Some bson \<Rightarrow>
          (case fresh_object ?s1 c bson of
             (Inl e, s2) \<Rightarrow> (Inl e, s2)
           | (Inr r, s2) \<Rightarrow> (Inr (Some r), s2)))"
    using a by (intro get_miss_unfold) auto
  have c1: "calls ?s1 = calls s @ [FindOne (coll_name c) ?sp]"
    by (simp add: record_call_def)
  show "calls (snd (get s c kwargs)) = calls s @ [FindOne (coll_name c) ?sp]"
  proof (cases "coll_find_one ?sp (stored s (coll_name c))")
    case None
    then show ?thesis using u c1 by simp
  next
    case (Some bson)
    have "calls (snd (fresh_object ?s1 c bson)) = calls ?s1" by (rule fresh_object_calls)
    then show ?thesis
      using u c1 Some by (cases "fresh_object ?s1 c bson") (auto split: sum.splits)
  qed
  {
    assume "coll_find_one ?sp (stored s (coll_name c)) = None"
    then show "get s c kwargs = (Inr None, ?s1)" using u by simp
  }
qed

lemmas cached_defs = cached_world_def

text \<open>
  Witness for C9: on the example session a cached user is returned without a
  storage call; a \<open>get\<close> by a name that no record has issues one find-one and
  returns \<open>None\<close>.
\<close>

theorem get_cache_then_find_one_witness:
  "imap_get cached_world User (VInt 1) = Some 0 \<and>
   get cached_world User [(''_id'', VInt 1)] = (Inr (Some 0), cached_world) \<and>
   bind fresh_world \<noteq> None \<and>
   coll_find_one [(''name'', Eq (VStr ''b''))] (stored fresh_world ''user'') = None \<and>
   calls (snd (get fresh_world User [(''name'', VStr ''b'')]))
     = [FindOne ''user'' [(''name'', Eq (VStr ''b''))]] \<and>
   get fresh_world User [(''name'', VStr ''b'')]
     = (Inr None, record_call (FindOne ''user'' [(''name'', Eq (VStr ''b''))]) fresh_world)"
proof -
  have h1: "imap_get cached_world User (VInt 1) = Some 0"
    by (simp add: imap_get_def cached_defs fixture_defs)
  have h2: "bind fresh_world \<noteq> None \<and>
      (\<forall>v. [(''name'', VStr ''b'')] = [(''_id'', v)] \<longrightarrow> imap_get fresh_world User v = None)"
    by (simp add: fixture_defs)
  have h3: "coll_find_one (map (\<lambda>(k, v). (k, Eq v)) [(''name'', VStr ''b'')])
      (stored fresh_world (coll_name User)) = None"
    by (simp add: fixture_defs stored_def coll_find_one_def matches_def)
  have cn: "coll_name User = ''user''" "calls fresh_world = []"
    by (simp_all add: fixture_defs)
  note t1 = get_cache_then_find_one [of cached_world User "VInt 1" 0 "[]", THEN conjunct1]
  note t2 = get_cache_then_find_one [of fresh_world User "VInt 1" 0 "[(''name'', VStr ''b'')]",
      THEN conjunct2]
  from t1 h1 have a: "get cached_world User [(''_id'', VInt 1)] = (Inr (Some 0), cached_world)"
    by blast
  from t2 h2 h3 have b: "calls (snd (get fresh_world User [(''name'', VStr ''b'')]))
        = calls fresh_world @ [FindOne (coll_name User) (map (\<lambda>(k, v). (k, Eq v)) [(''name'', VStr ''b'')])]"
    and c: "get fresh_world User [(''name'', VStr ''b'')]
        = (Inr None, record_call (FindOne (coll_name User) (map (\<lambda>(k, v). (k, Eq v)) [(''name'', VStr ''b'')])) fresh_world)"
    by blast+
  from h3 have h3': "coll_find_one [(''name'', Eq (VStr ''b''))] (stored fresh_world ''user'') = None"
    by (simp add: cn)
  from b have b': "calls (snd (get fresh_world User [(''name'', VStr ''b'')]))
     = [FindOne ''user'' [(''name'', Eq (VStr ''b''))]]"
    by (simp add: cn)
  from c have c': "get fresh_world User [(''name'', VStr ''b'')]
     = (Inr None, record_call (FindOne ''user'' [(''name'', Eq (VStr ''b''))]) fresh_world)"
    by (simp add: cn)
  from h1 a h2 h3' b' c' show ?thesis by blast
qed

subsection \<open>Identity of the objects returned by \<open>get\<close>\<close>

lemma same_registry_refl: "same_registry s s"
  by (simp add: same_registry_def)

lemma same_registry_trans:
  "same_registry s s1 \<Longrightarrow> same_registry s1 s2 \<Longrightarrow> same_registry s s2"
  by (simp add: same_registry_def)

lemma same_registry_prims:
  "same_registry s (set_fields s r d)"
  "same_registry s (record_call x s)"
  "same_registry s (put_coll cn c s)"
  "same_registry s (storage_update cn sp u ups s)"
  "same_registry s (storage_remove cn sp s)"
  "same_registry s (snd (storage_insert cn data s))"
  "same_registry s (snd (storage_save cn data s))"
  "same_registry s (uow_save_dirty s r)"
  by (simp_all add: same_registry_def set_fields_def record_call_def put_coll_def
      storage_update_def storage_remove_def storage_insert_def storage_save_def
      uow_save_dirty_def class_of_def split: option.splits)

lemma same_registry_run_hook: "same_registry s (snd (run_hook s r))"
  by (simp add: run_hook_def same_registry_refl same_registry_prims
      split: option.splits sum.splits)

lemma same_registry_prepare: "same_registry s (snd (prepare s r))"
proof -
  let ?d = "make_safe (class_of s r) (doc_of s r)"
  have a: "same_registry s (set_fields s r ?d)" by (rule same_registry_prims)
  have b: "same_registry s (set_fields (set_fields s r ?d) r d')" for d'
    using a same_registry_prims(1) by (rule same_registry_trans)
  show ?thesis
    using a b by (simp add: prepare_def Let_def split: sum.splits)
qed

lemma same_registry_guarded_update: "same_registry s (snd (guarded_update s r key c v))"
  by (simp add: guarded_update_def same_registry_refl same_registry_prims
      split: option.splits sum.splits)

lemma same_registry_increase_field: "same_registry s (snd (increase_field s r kwargs))"
proof (cases kwargs)
  case Nil
  then show ?thesis by (simp add: increase_field_def same_registry_refl)
next
  case (Cons p rest)
  obtain key v where p: "p = (key, v)" by (cases p)
  obtain res s1 where g: "guarded_update s r key (Eq VNone) v = (res, s1)"
    by (cases "guarded_update s r key (Eq VNone) v")
  have a: "same_registry s s1"
    using same_registry_guarded_update [of s r key "Eq VNone" v] g by simp
  have b: "same_registry s (snd (guarded_update s1 r key (Lt v) v))"
    using a same_registry_guarded_update by (rule same_registry_trans)
  have c: "same_registry s (snd (guarded_update s r key (Lt v) v))"
    by (rule same_registry_guarded_update)
  show ?thesis
    using Cons p g a b c
    by (simp add: increase_field_def same_registry_refl split: sum.splits)
qed

lemma same_registry_delete: "same_registry s (snd (delete s r))"
  by (simp add: delete_def same_registry_refl same_registry_prims
      split: option.splits sum.splits)

lemma same_registry_insert: "same_registry s (snd (insert_doc s r))"
proof -
  obtain p s1 where pr: "prepare s r = (p, s1)" by (cases "prepare s r")
  have a: "same_registry s s1" using same_registry_prepare [of s r] pr by simp
  have b: "same_registry s (snd (storage_insert cn data (record_call x s1)))" for cn data x
    using a same_registry_trans same_registry_prims(2,6) by blast
  have c: "same_registry s (set_fields (snd (storage_insert cn data (record_call x s1))) r d)"
    for cn data x d
    using b same_registry_prims(1) by (rule same_registry_trans)
  show ?thesis
    using pr a b c
    by (simp add: insert_doc_def split_beta split: sum.splits)
qed

lemma same_registry_upsert: "same_registry s (snd (upsert s r sf))"
proof -
  obtain p s1 where pr: "prepare s r = (p, s1)" by (cases "prepare s r")
  have a: "same_registry s s1" using same_registry_prepare [of s r] pr by simp
  have b: "same_registry s (storage_update cn sp u ups s1)" for cn sp u ups
    using a same_registry_prims(4) by (rule same_registry_trans)
  show ?thesis
    using pr a b by (simp add: upsert_def split: sum.splits)
qed

lemma same_registry_save: "same_registry s (snd (save s r args))"
proof -
  obtain h s0 where hk: "run_hook s r = (h, s0)" by (cases "run_hook s r")
  have a0: "same_registry s s0" using same_registry_run_hook [of s r] hk by simp
  obtain p s1 where pr: "prepare s0 r = (p, s1)" by (cases "prepare s0 r")
  have a: "same_registry s s1"
    using a0 same_registry_prepare [of s0 r] pr by (auto intro: same_registry_trans)
  have b: "same_registry s (storage_update cn sp u ups s1)" for cn sp u ups
    using a same_registry_prims(4) by (rule same_registry_trans)
  have c: "same_registry s (snd (storage_save cn data (record_call x s1)))" for cn data x
    using a same_registry_trans same_registry_prims(2,7) by blast
  have d: "same_registry s (set_fields (snd (storage_save cn data (record_call x s1))) r d')"
    for cn data x d'
    using c same_registry_prims(1) by (rule same_registry_trans)
  show ?thesis
    using hk pr a0 a b c d
    by (simp add: save_def split_beta split: sum.splits option.splits)
qed

lemma same_registry_soil: "same_registry s (soil s r)"
  by (simp add: soil_def same_registry_refl same_registry_prims)

lemma imap_ok_same_registry: "imap_ok s \<Longrightarrow> same_registry s s' \<Longrightarrow> imap_ok s'"
  by (simp add: imap_ok_def same_registry_def)

lemma keeps_idD: "keeps_id c \<Longrightarrow> make_obj c fl b = Inr d \<Longrightarrow> d ''_id'' = b ''_id''"
  unfolding keeps_id_def by blast

text \<open>
  \<open>fresh_object\<close> keeps the identity map well formed and never replaces an entry, for
  a class whose \<open>make\<close> keeps the primary key.
\<close>

lemma fresh_object_keeps:
  assumes ok: "imap_ok s" and mk: "keeps_id c"
  shows "imap_ok (snd (fresh_object s c bson)) \<and> imap s \<subseteq>\<^sub>m imap (snd (fresh_object s c bson))"
proof (cases "case bson ''_id'' of Some k \<Rightarrow> imap_get s c k | None \<Rightarrow> None")
  case None
  note miss = this
  show ?thesis
  proof (cases "make_obj c (Some (False, True)) bson")
    case (Inl e)
    with miss ok show ?thesis by (simp add: fresh_object_def)
  next
    case (Inr d)
    let ?r = "next_ref s"
    let ?s1 = "snd (alloc s c d)"
    have did: "d ''_id'' = bson ''_id''" using mk Inr by (rule keeps_idD)
    have s1: "imap ?s1 = imap s" "next_ref ?s1 = Suc (next_ref s)"
      "class_of ?s1 ?r = c" "doc_of ?s1 ?r = d"
      "\<And>r. r \<noteq> next_ref s \<Longrightarrow> class_of ?s1 r = class_of s r"
      by (simp_all add: alloc_def class_of_def doc_of_def)
    have ok1: "imap_ok ?s1"
      unfolding imap_ok_def
    proof (intro allI impI)
      fix n k r assume "imap ?s1 (n, k) = Some r"
      then have e: "imap s (n, k) = Some r" by (simp add: s1)
      with ok have "r < next_ref s" "cls_name (class_of s r) = n"
        by (auto simp: imap_ok_def)
      then show "r < next_ref ?s1 \<and> cls_name (class_of ?s1 r) = n"
        by (simp add: s1)
    qed
    have fo: "fresh_object s c bson = register ?s1 ?r"
      using miss Inr by (simp add: fresh_object_def alloc_def)
    show ?thesis
    proof (cases "d ''_id''")
      case None
      then have "snd (register ?s1 ?r) = ?s1"
        using s1(4) by (simp add: register_def imap_save_def doc_of_def)
      with fo ok1 s1(1) show ?thesis by simp
    next
      case (Some k)
      then have im: "imap (snd (register ?s1 ?r)) = (imap s)((cls_name c, k) \<mapsto> ?r)"
        and nr: "next_ref (snd (register ?s1 ?r)) = Suc (next_ref s)"
        and cl: "\<And>r. class_of (snd (register ?s1 ?r)) r = class_of ?s1 r"
        using s1(1-4)
        by (simp_all add: register_def imap_save_def uow_save_clean_def doc_of_def class_of_def)
      from Some did miss have free: "imap s (cls_name c, k) = None"
        by (simp add: imap_get_def)
      have le: "imap s \<subseteq>\<^sub>m imap (snd (register ?s1 ?r))"
        unfolding im using free by (auto simp: map_le_def)
      have "imap_ok (snd (register ?s1 ?r))"
        unfolding imap_ok_def
      proof (intro allI impI)
        fix n k' r assume a: "imap (snd (register ?s1 ?r)) (n, k') = Some r"
        show "r < next_ref (snd (register ?s1 ?r)) \<and>
              cls_name (class_of (snd (register ?s1 ?r)) r) = n"
        proof (cases "(n, k') = (cls_name c, k)")
          case True
          with a im have "r = ?r" by simp
          with True show ?thesis by (simp add: nr cl s1)
        next
          case False
          with a im have "imap ?s1 (n, k') = Some r"
            by (auto simp: s1 split: if_splits)
          with ok1 have "r < next_ref ?s1 \<and> cls_name (class_of ?s1 r) = n"
            by (auto simp: imap_ok_def)
          then show ?thesis by (simp add: nr cl s1)
        qed
      qed
      with fo le show ?thesis by simp
    qed
  qed
next
  case (Some r1)
  then obtain k where bk: "bson ''_id'' = Some k" and hit: "imap s (cls_name c, k) = Some r1"
    by (auto simp: imap_get_def split: option.splits)
  from ok hit have cn: "cls_name (class_of s r1) = cls_name c"
    by (auto simp: imap_ok_def)
  show ?thesis
  proof (cases "make_obj c None bson")
    case (Inl e)
    with Some ok show ?thesis by (simp add: fresh_object_def)
  next
    case (Inr d)
    let ?s1 = "set_fields s r1 (doc_of s r1 ++ d)"
    have did: "d ''_id'' = Some k" using keeps_idD [OF mk Inr] bk by simp
    have fo: "fresh_object s c bson = register ?s1 r1"
      using Some Inr by (simp add: fresh_object_def)
    have sr: "same_registry s ?s1" by (rule same_registry_prims)
    have "imap (snd (register ?s1 r1)) = (imap s)((cls_name c, k) \<mapsto> r1)"
      using did cn
      by (simp add: register_def imap_save_def uow_save_clean_def set_fields_def class_of_def
          doc_of_def)
    also have "\<dots> = imap s" using hit by (simp add: fun_upd_idem)
    finally have im: "imap (snd (register ?s1 r1)) = imap s" .
    have "same_registry ?s1 (snd (register ?s1 r1))"
      using im by (simp add: same_registry_def register_def imap_save_def uow_save_clean_def
          set_fields_def class_of_def split: option.splits)
    with sr have "same_registry s (snd (register ?s1 r1))" by (rule same_registry_trans)
    with ok fo im show ?thesis by (simp add: imap_ok_same_registry)
  qed
qed

lemma get_keeps:
  assumes ok: "imap_ok s" and mk: "keeps_id c"
  shows "imap_ok (snd (get s c kwargs)) \<and> imap s \<subseteq>\<^sub>m imap (snd (get s c kwargs))"
proof -
  let ?sp = "map (\<lambda>(k, v). (k, Eq v)) kwargs"
  let ?s1 = "record_call (FindOne (coll_name c) ?sp) s"
  have ok1: "imap_ok ?s1"
    using ok same_registry_prims(2) by (rule imap_ok_same_registry)
  have i1: "imap ?s1 = imap s" by (simp add: record_call_def)
  have f: "imap_ok (snd (fresh_object ?s1 c bson)) \<and> imap s \<subseteq>\<^sub>m imap (snd (fresh_object ?s1 c bson))"
    for bson
    using fresh_object_keeps [OF ok1 mk, of bson] by (simp add: i1)
  have cases: "snd (get s c kwargs) = s \<or> snd (get s c kwargs) = ?s1 \<or>
      (\<exists>bson. snd (get s c kwargs) = snd (fresh_object ?s1 c bson))"
  proof (cases "case kwargs of [] \<Rightarrow> None
                | [(k, v)] \<Rightarrow> if k = ''_id'' then imap_get s c v else None
                | (k, v) # p # ps \<Rightarrow> None")
    case (Some r)
    then have "snd (get s c kwargs) = s" by (simp add: get_def)
    then show ?thesis by simp
  next
    case None
    note miss = this
    show ?thesis
    proof (cases "bind s")
      case None
      with miss have "snd (get s c kwargs) = s" by (simp add: get_def impl_def)
      then show ?thesis by simp
    next
      case (Some db)
      note b = this
      show ?thesis
      proof (cases "coll_find_one ?sp (stored s (coll_name c))")
        case None
        with miss b have "snd (get s c kwargs) = ?s1"
          by (simp add: get_def impl_def storage_find_one_def)
        then show ?thesis by simp
      next
        case (Some bson)
        with miss b have "snd (get s c kwargs) = snd (fresh_object ?s1 c bson)"
          by (simp add: get_def impl_def storage_find_one_def split_beta split: sum.splits)
        then show ?thesis by blast
      qed
    qed
  qed
  then show ?thesis
    using ok ok1 i1 f by auto
qed

lemma step_keeps:
  assumes ok: "imap_ok s" and r: "retains x"
  shows "imap_ok (step s x) \<and> imap s \<subseteq>\<^sub>m imap (step s x)"
proof -
  have sr: "imap_ok s' \<and> imap s \<subseteq>\<^sub>m imap s'" if "same_registry s s'" for s'
    using ok that by (simp add: imap_ok_same_registry) (simp add: same_registry_def)
  show ?thesis
  proof (cases x)
    case (Get c kwargs)
    with r ok show ?thesis by (simp add: get_keeps)
  next
    case (Save r args)
    then show ?thesis using sr [OF same_registry_save] by simp
  next
    case (Insert r)
    then show ?thesis using sr [OF same_registry_insert] by simp
  next
    case (Upsert r sf)
    then show ?thesis using sr [OF same_registry_upsert] by simp
  next
    case (Delete r)
    then show ?thesis using sr [OF same_registry_delete] by simp
  next
    case (IncreaseField r kwargs)
    then show ?thesis using sr [OF same_registry_increase_field] by simp
  next
    case (Soil r)
    then show ?thesis using sr [OF same_registry_soil] by simp
  next
    case (JoinNew r)
    with r show ?thesis by simp
  next
    case Clear
    with r show ?thesis by simp
  qed
qed

lemma run_keeps:
  "imap_ok s \<Longrightarrow> list_all retains ops \<Longrightarrow>
     imap_ok (run s ops) \<and> imap s \<subseteq>\<^sub>m imap (run s ops)"
proof (induction ops arbitrary: s)
  case Nil
  then show ?case by (simp add: run_def)
next
  case (Cons x ops)
  from Cons.prems have r: "retains x" and rs: "list_all retains ops" by simp_all
  from step_keeps [OF Cons.prems(1) r]
  have a: "imap_ok (step s x)" and b: "imap s \<subseteq>\<^sub>m imap (step s x)" by simp_all
  from Cons.IH [OF a rs]
  have c: "imap_ok (run (step s x) ops)" and d: "imap (step s x) \<subseteq>\<^sub>m imap (run (step s x) ops)"
    by simp_all
  have e: "run s (x # ops) = run (step s x) ops" by (simp add: run_def)
  from b d have "imap s \<subseteq>\<^sub>m imap (run (step s x) ops)" by (rule map_le_trans)
  with c e show ?case by simp
qed

lemma get_registers:
  assumes mk: "keeps_id c" and g: "fst (get s c [(''_id'', K)]) = Inr (Some r1)"
  shows "imap_get (snd (get s c [(''_id'', K)])) c K = Some r1"
proof (cases "imap_get s c K")
  case (Some r)
  with g show ?thesis by (simp add: get_hit)
next
  case None
  let ?sp = "map (\<lambda>(k, v). (k, Eq v)) [(''_id'', K)]"
  let ?s0 = "record_call (FindOne (coll_name c) ?sp) s"
  have b: "bind s \<noteq> None"
    using g None by (auto simp: get_def impl_def split: option.splits)
  have u: "get s c [(''_id'', K)] =
     (case coll_find_one ?sp (stored s (coll_name c)) of
        None \<Rightarrow> (Inr None, ?s0)
      | Some bson \<Rightarrow>
          (case fresh_object ?s0 c bson of
             (Inl e, s2) \<Rightarrow> (Inl e, s2)
           | (Inr r, s2) \<Rightarrow> (Inr (Some r), s2)))"
    using None b by (intro get_miss_unfold) auto
  from g u obtain bson where f: "coll_find_one ?sp (stored s (coll_name c)) = Some bson"
    by (cases "coll_find_one ?sp (stored s (coll_name c))") auto
  from g u f obtain s2 where fo: "fresh_object ?s0 c bson = (Inr r1, s2)"
    by (cases "fresh_object ?s0 c bson") (auto split: sum.splits)
  with u f have s1: "snd (get s c [(''_id'', K)]) = s2" by simp
  from f have "matches ?sp bson"
    by (auto simp: coll_find_one_def find_Some_iff)
  then have ch: "cond_holds (bson ''_id'') (Eq K)"
    by (simp add: matches_def)
  have miss: "imap_get ?s0 c K' = None" if "bson ''_id'' = Some K'" for K'
  proof -
    from ch that have "K' = K" by simp
    with None show ?thesis by (simp add: imap_get_def record_call_def)
  qed
  have "\<exists>K'. bson ''_id'' = Some K' \<and> imap_get s2 c K' = Some r1"
  proof (rule fresh_object_miss [where s = ?s0 and c = c])
    show "\<And>fl b d. make_obj c fl b = Inr d \<Longrightarrow> d ''_id'' = b ''_id''"
      using mk by (rule keeps_idD)
    show "\<And>K'. bson ''_id'' = Some K' \<Longrightarrow> imap_get ?s0 c K' = None" by (rule miss)
    show "fresh_object ?s0 c bson = (Inr r1, s2)" by (rule fo)
  qed
  then obtain K' where k: "bson ''_id'' = Some K'" "imap_get s2 c K' = Some r1"
    by blast
  from ch k(1) have "K' = K" by simp
  with k(2) s1 show ?thesis by simp
qed

lemma fresh_object_refresh:
  assumes hit: "imap_get s c K = Some r" and id: "bson ''_id'' = Some K"
    and d: "make_obj c None bson = Inr d" and dk: "d ''_id'' = Some K"
  shows "fst (fresh_object s c bson) = Inr r \<and>
         next_ref (snd (fresh_object s c bson)) = next_ref s \<and>
         doc_of (snd (fresh_object s c bson)) r = doc_of s r ++ d \<and>
         calls (snd (fresh_object s c bson)) = calls s"
proof -
  let ?s1 = "set_fields s r (doc_of s r ++ d)"
  have fo: "fresh_object s c bson = register ?s1 r"
    using hit id d by (simp add: fresh_object_def)
  have "doc_of ?s1 r ''_id'' = Some K"
    using dk by (simp add: set_fields_facts)
  then have "fst (register ?s1 r) = Inr r"
    by (simp add: register_def imap_save_def doc_of_def)
  moreover have "next_ref (snd (register ?s1 r)) = next_ref s"
    by (simp add: register_facts set_fields_def)
  moreover have "doc_of (snd (register ?s1 r)) r = doc_of s r ++ d"
    by (simp add: doc_of_def register_facts) (simp add: set_fields_def)
  moreover have "calls (snd (register ?s1 r)) = calls s"
    by (simp add: register_facts set_fields_def)
  ultimately show ?thesis by (simp add: fo)
qed

text \<open>
  Claim C1, as amended. Let a \<open>get(T, _id=K)\<close> return an object, on a session with
  a well-formed identity map and for a class whose \<open>make\<close> keeps the primary key.
  After any sequence of session calls other than \<open>clear\<close> and \<open>join_new\<close>
  (further \<open>get\<close>, \<open>save\<close>, \<open>insert\<close>, \<open>upsert\<close>, \<open>delete\<close>, \<open>increase_field\<close>,
  \<open>soil\<close>), a second \<open>get(T, _id=K)\<close> returns the same reference and leaves the
  world as it was: it does not query storage. And a \<open>get\<close> that does query
  storage, through any other filter, and finds a record with key \<open>K\<close> returns that
  same reference again: it has issued the find-one, allocated no object, and updated
  the cached instance in place from the record.
\<close>

theorem get_identity_unique:
  assumes ok: "imap_ok s" and mk: "keeps_id c"
    and g: "fst (get s c [(''_id'', K)]) = Inr (Some r1)"
    and ops: "list_all retains ops"
  shows "get (run (snd (get s c [(''_id'', K)])) ops) c [(''_id'', K)]
           = (Inr (Some r1), run (snd (get s c [(''_id'', K)])) ops) \<and>
         (\<forall>kwargs bson d.
            (\<forall>v. kwargs \<noteq> [(''_id'', v)]) \<and>
            coll_find_one (map (\<lambda>(k, v). (k, Eq v)) kwargs)
              (stored (run (snd (get s c [(''_id'', K)])) ops) (coll_name c)) = Some bson \<and>
            bson ''_id'' = Some K \<and> make_obj c None bson = Inr d \<longrightarrow>
              fst (get (run (snd (get s c [(''_id'', K)])) ops) c kwargs) = Inr (Some r1) \<and>
              calls (snd (get (run (snd (get s c [(''_id'', K)])) ops) c kwargs))
                = calls (run (snd (get s c [(''_id'', K)])) ops)
                  @ [FindOne (coll_name c) (map (\<lambda>(k, v). (k, Eq v)) kwargs)] \<and>
              next_ref (snd (get (run (snd (get s c [(''_id'', K)])) ops) c kwargs))
                = next_ref (run (snd (get s c [(''_id'', K)])) ops) \<and>
              doc_of (snd (get (run (snd (get s c [(''_id'', K)])) ops) c kwargs)) r1
                = doc_of (run (snd (get s c [(''_id'', K)])) ops) r1 ++ d)"
proof -
  let ?s1 = "snd (get s c [(''_id'', K)])"
  let ?s2 = "run ?s1 ops"
  have reg: "imap_get ?s1 c K = Some r1" using mk g by (rule get_registers)
  have ok1: "imap_ok ?s1" using get_keeps [OF ok mk] by simp
  have le: "imap ?s1 \<subseteq>\<^sub>m imap ?s2" using run_keeps [OF ok1 ops] by simp
  have reg2: "imap_get ?s2 c K = Some r1"
  proof -
    from reg have "(cls_name c, K) \<in> dom (imap ?s1)" by (auto simp: imap_get_def)
    with le have "imap ?s2 (cls_name c, K) = imap ?s1 (cls_name c, K)"
      by (simp add: map_le_def)
    with reg show ?thesis by (simp add: imap_get_def)
  qed
  have again: "get ?s2 c [(''_id'', K)] = (Inr (Some r1), ?s2)"
    using reg2 by (rule get_hit)
  have other: "fst (get ?s2 c kwargs) = Inr (Some r1) \<and>
      calls (snd (get ?s2 c kwargs))
        = calls ?s2 @ [FindOne (coll_name c) (map (\<lambda>(k, v). (k, Eq v)) kwargs)] \<and>
      next_ref (snd (get ?s2 c kwargs)) = next_ref ?s2 \<and>
      doc_of (snd (get ?s2 c kwargs)) r1 = doc_of ?s2 r1 ++ d"
    if nf: "\<forall>v. kwargs \<noteq> [(''_id'', v)]"
      and f: "coll_find_one (map (\<lambda>(k, v). (k, Eq v)) kwargs) (stored ?s2 (coll_name c)) = Some bson"
      and bk: "bson ''_id'' = Some K" and d: "make_obj c None bson = Inr d"
    for kwargs bson d
  proof -
    let ?sp = "map (\<lambda>(k, v). (k, Eq v)) kwargs"
    let ?s3 = "record_call (FindOne (coll_name c) ?sp) ?s2"
    have b: "bind ?s2 \<noteq> None"
      using f by (auto simp: stored_def coll_find_one_def split: option.splits)
    have u: "get ?s2 c kwargs =
       (case coll_find_one ?sp (stored ?s2 (coll_name c)) of
          None \<Rightarrow> (Inr None, ?s3)
        | Some bson \<Rightarrow>
            (case fresh_object ?s3 c bson of
               (Inl e, s') \<Rightarrow> (Inl e, s')
             | (Inr r, s') \<Rightarrow> (Inr (Some r), s')))"
      using nf b by (intro get_miss_unfold) auto
    have hit: "imap_get ?s3 c K = Some r1"
      using reg2 by (simp add: imap_get_def record_call_def)
    have dk: "d ''_id'' = Some K" using keeps_idD [OF mk d] bk by simp
    have s3: "next_ref ?s3 = next_ref ?s2" "doc_of ?s3 r1 = doc_of ?s2 r1"
      "calls ?s3 = calls ?s2 @ [FindOne (coll_name c) ?sp]"
      by (simp_all add: record_call_def doc_of_def)
    from fresh_object_refresh [OF hit bk d dk]
    have fo: "fst (fresh_object ?s3 c bson) = Inr r1"
      "next_ref (snd (fresh_object ?s3 c bson)) = next_ref ?s3"
      "doc_of (snd (fresh_object ?s3 c bson)) r1 = doc_of ?s3 r1 ++ d"
      "calls (snd (fresh_object ?s3 c bson)) = calls ?s3"
      by simp_all
    obtain res s' where p: "fresh_object ?s3 c bson = (res, s')"
      by (cases "fresh_object ?s3 c bson")
    with fo have res: "res = Inr r1" and s': "next_ref s' = next_ref ?s3"
      "doc_of s' r1 = doc_of ?s3 r1 ++ d" "calls s' = calls ?s3"
      by simp_all
    have "get ?s2 c kwargs = (Inr (Some r1), s')"
      using u f p res by simp
    then show ?thesis using s' s3 by simp
  qed
  from again other show ?thesis by blast
qed

lemmas op_defs = run_def keeps_id_def imap_ok_def

text \<open>
  Witness for C1: on the example session the first \<open>get(User, _id=1)\<close> queries
  storage and creates object 1. After \<open>increase_field(obj, score=5)\<close> a second
  \<open>get(User, _id=1)\<close> returns object 1 without a storage call, and a \<open>get\<close> by
  name, which queries storage and finds the same record, returns object 1 as well,
  which had no score and now carries the stored one.
\<close>

theorem get_identity_unique_witness:
  "imap_ok fresh_world \<and> keeps_id User \<and>
   fst (get fresh_world User [(''_id'', VInt 1)]) = Inr (Some 1) \<and>
   list_all retains [IncreaseField 1 [(''score'', VInt 5)]] \<and>
   get (run (snd (get fresh_world User [(''_id'', VInt 1)])) [IncreaseField 1 [(''score'', VInt 5)]])
       User [(''_id'', VInt 1)]
     = (Inr (Some 1),
        run (snd (get fresh_world User [(''_id'', VInt 1)])) [IncreaseField 1 [(''score'', VInt 5)]]) \<and>
   fst (get (run (snd (get fresh_world User [(''_id'', VInt 1)])) [IncreaseField 1 [(''score'', VInt 5)]])
         User [(''name'', VStr ''a'')]) = Inr (Some 1) \<and>
   doc_of (run (snd (get fresh_world User [(''_id'', VInt 1)])) [IncreaseField 1 [(''score'', VInt 5)]])
     1 ''score'' = None \<and>
   doc_of (snd (get (run (snd (get fresh_world User [(''_id'', VInt 1)]))
                       [IncreaseField 1 [(''score'', VInt 5)]])
                  User [(''name'', VStr ''a'')])) 1 ''score'' = Some (VInt 5)"
proof -
  let ?s1 = "snd (get fresh_world User [(''_id'', VInt 1)])"
  let ?ops = "[IncreaseField 1 [(''score'', VInt 5)]]"
  let ?s2 = "run ?s1 ?ops"
  let ?bson = "[''_id'' \<mapsto> VInt 1, ''name'' \<mapsto> VStr ''a'', ''score'' \<mapsto> VInt 5]"
  have ok: "imap_ok fresh_world" by (simp add: imap_ok_def fixture_defs)
  have mk: "keeps_id User" by (simp add: keeps_id_def fixture_defs)
  have g: "fst (get fresh_world User [(''_id'', VInt 1)]) = Inr (Some 1)"
    by (simp add: fixture_defs get_def imap_get_def impl_def storage_find_one_def stored_def
        coll_find_one_def matches_def record_call_def fresh_object_def alloc_def register_def
        imap_save_def uow_save_clean_def)
  have ops: "list_all retains ?ops" by simp
  have st: "stored ?s2 (coll_name User) = [?bson]"
    by (simp add: fixture_defs run_def get_def imap_get_def impl_def storage_find_one_def
        stored_def coll_find_one_def matches_def record_call_def fresh_object_def alloc_def
        register_def imap_save_def uow_save_clean_def increase_field_def guarded_update_def
        storage_update_def put_coll_def coll_update_def doc_of_def class_of_def)
  have f: "(\<forall>v. [(''name'', VStr ''a'')] \<noteq> [(''_id'', v)]) \<and>
      coll_find_one (map (\<lambda>(k, v). (k, Eq v)) [(''name'', VStr ''a'')])
        (stored ?s2 (coll_name User)) = Some ?bson \<and>
      ?bson ''_id'' = Some (VInt 1) \<and> make_obj User None ?bson = Inr ?bson"
  proof (intro conjI)
    show "\<forall>v. [(''name'', VStr ''a'')] \<noteq> [(''_id'', v)]" by simp
    show "coll_find_one (map (\<lambda>(k, v). (k, Eq v)) [(''name'', VStr ''a'')])
        (stored ?s2 (coll_name User)) = Some ?bson"
      unfolding st by (simp add: coll_find_one_def matches_def)
    show "?bson ''_id'' = Some (VInt 1)" by simp
    show "make_obj User None ?bson = Inr ?bson" by (simp add: User_def)
  qed
  have d1: "doc_of ?s2 1 ''score'' = None"
    by (simp add: fixture_defs run_def get_def imap_get_def impl_def storage_find_one_def
        stored_def coll_find_one_def matches_def record_call_def fresh_object_def alloc_def
        register_def imap_save_def uow_save_clean_def increase_field_def guarded_update_def
        storage_update_def put_coll_def coll_update_def doc_of_def class_of_def)
  note t = get_identity_unique [OF ok mk g ops]
  from t have a: "get ?s2 User [(''_id'', VInt 1)] = (Inr (Some 1), ?s2)" by blast
  from t f have b: "fst (get ?s2 User [(''name'', VStr ''a'')]) = Inr (Some 1)"
    and c: "doc_of (snd (get ?s2 User [(''name'', VStr ''a'')])) 1 = doc_of ?s2 1 ++ ?bson"
    by blast+
  from c have c': "doc_of (snd (get ?s2 User [(''name'', VStr ''a'')])) 1 ''score'' = Some (VInt 5)"
    by simp
  from ok mk g ops a b d1 c' show ?thesis by blast
qed

text \<open>
  Counterexample to C1 as stated: two calls \<open>get(User, _id=1)\<close> with a \<open>clear()\<close>
  between them both return an object, the second after querying storage again, and
  the two objects are different instances.
\<close>

theorem get_after_clear_counterexample:
  "fst (get fresh_world User [(''_id'', VInt 1)]) = Inr (Some 1) \<and>
   fst (get (clear (snd (get fresh_world User [(''_id'', VInt 1)]))) User [(''_id'', VInt 1)])
     = Inr (Some 2) \<and>
   calls (snd (get (clear (snd (get fresh_world User [(''_id'', VInt 1)]))) User [(''_id'', VInt 1)]))
     = [FindOne ''user'' [(''_id'', Eq (VInt 1))], FindOne ''user'' [(''_id'', Eq (VInt 1))]]"
  by (simp add: fixture_defs get_def imap_get_def impl_def storage_find_one_def stored_def
      coll_find_one_def matches_def record_call_def fresh_object_def alloc_def register_def
      imap_save_def uow_save_clean_def clear_def imap_clear_def uow_clear_def)

section \<open>Properties of the write path\<close>

lemma run_hook_facts:
  "bind (snd (run_hook s r)) = bind s"
  "calls (snd (run_hook s r)) = calls s"
  "class_of (snd (run_hook s r)) r' = class_of s r'"
  by (simp_all add: run_hook_def set_fields_facts split: option.splits sum.splits)

lemma prepare_facts:
  "bind (snd (prepare s r)) = bind s"
  "calls (snd (prepare s r)) = calls s"
  "class_of (snd (prepare s r)) r' = class_of s r'"
  by (simp_all add: prepare_def Let_def set_fields_facts split: sum.splits)

lemma prepare_error:
  assumes "validate (class_of s r) (make_safe (class_of s r) (doc_of s r)) = Inl e"
  shows "fst (prepare s r) = Inl e"
  using assms by (simp add: prepare_def Let_def)

text \<open>
  Claim C8. If the validator raises on the document (after \<open>make_safe\<close>, and in
  \<open>save\<close> after the \<open>before_save\<close> hook has run), then \<open>insert\<close>, \<open>upsert\<close> and
  \<open>save\<close> raise that same error, the bound database is unchanged and no call has
  been issued to the store.
\<close>

theorem validation_error_no_write:
  "(validate (class_of s r) (make_safe (class_of s r) (doc_of s r)) = Inl e \<longrightarrow>
      fst (insert_doc s r) = Inl e \<and> bind (snd (insert_doc s r)) = bind s \<and>
      calls (snd (insert_doc s r)) = calls s \<and>
      fst (upsert s r sf) = Inl e \<and> bind (snd (upsert s r sf)) = bind s \<and>
      calls (snd (upsert s r sf)) = calls s) \<and>
   (fst (run_hook s r) = Inr () \<and>
    validate (class_of s r) (make_safe (class_of s r) (doc_of (snd (run_hook s r)) r)) = Inl e \<longrightarrow>
      fst (save s r args) = Inl e \<and> bind (snd (save s r args)) = bind s \<and>
      calls (snd (save s r args)) = calls s)"
proof (intro conjI impI)
  assume v: "validate (class_of s r) (make_safe (class_of s r) (doc_of s r)) = Inl e"
  obtain res s1 where p: "prepare s r = (res, s1)" by (cases "prepare s r")
  have res: "res = Inl e" using prepare_error [OF v] p by simp
  have s1: "bind s1 = bind s" "calls s1 = calls s"
    using prepare_facts(1,2) [of s r] p by simp_all
  show "fst (insert_doc s r) = Inl e" using p res by (simp add: insert_doc_def)
  show "bind (snd (insert_doc s r)) = bind s" using p res s1 by (simp add: insert_doc_def)
  show "calls (snd (insert_doc s r)) = calls s" using p res s1 by (simp add: insert_doc_def)
  show "fst (upsert s r sf) = Inl e" using p res by (simp add: upsert_def)
  show "bind (snd (upsert s r sf)) = bind s" using p res s1 by (simp add: upsert_def)
  show "calls (snd (upsert s r sf)) = calls s" using p res s1 by (simp add: upsert_def)
next
  assume a: "fst (run_hook s r) = Inr () \<and>
    validate (class_of s r) (make_safe (class_of s r) (doc_of (snd (run_hook s r)) r)) = Inl e"
  obtain s0 where h: "run_hook s r = (Inr (), s0)"
    using a by (cases "run_hook s r") auto
  have s0: "bind s0 = bind s" "calls s0 = calls s" "class_of s0 r = class_of s r"
    using run_hook_facts [of s r] h by simp_all
  have v: "validate (class_of s0 r) (make_safe (class_of s0 r) (doc_of s0 r)) = Inl e"
    using a h s0 by simp
  obtain res s1 where p: "prepare s0 r = (res, s1)" by (cases "prepare s0 r")
  have res: "res = Inl e" using prepare_error [OF v] p by simp
  have s1: "bind s1 = bind s" "calls s1 = calls s"
    using prepare_facts(1,2) [of s0 r] p s0 by simp_all
  show "fst (save s r args) = Inl e" using h p res by (simp add: save_def)
  show "bind (snd (save s r args)) = bind s" using h p res s1 by (simp add: save_def)
  show "calls (snd (save s r args)) = calls s" using h p res s1 by (simp add: save_def)
qed

lemmas strict_defs = Strict_def strict_world_def

text \<open>
  Witness for C8: the strict class rejects the example document, which has no
  score; \<open>insert\<close>, \<open>upsert\<close> on \<open>name\<close> and a partial \<open>save\<close> of \<open>name\<close> all raise
  the validator's error and leave the store alone.
\<close>

theorem validation_error_no_write_witness:
  "validate (class_of strict_world 0) (make_safe (class_of strict_world 0) (doc_of strict_world 0))
     = Inl (ValidationError ''score: missing'') \<and>
   fst (run_hook strict_world 0) = Inr () \<and>
   fst (insert_doc strict_world 0) = Inl (ValidationError ''score: missing'') \<and>
   bind (snd (insert_doc strict_world 0)) = bind strict_world \<and>
   fst (upsert strict_world 0 (One ''name'')) = Inl (ValidationError ''score: missing'') \<and>
   calls (snd (upsert strict_world 0 (One ''name''))) = calls strict_world \<and>
   fst (save strict_world 0 [''name'']) = Inl (ValidationError ''score: missing'') \<and>
   bind (snd (save strict_world 0 [''name''])) = bind strict_world \<and>
   calls (snd (save strict_world 0 [''name''])) = calls strict_world"
proof -
  have h: "run_hook strict_world 0 = (Inr (), strict_world)"
    by (simp add: run_hook_def class_of_def strict_defs fixture_defs)
  have v: "validate (class_of strict_world 0) (make_safe (class_of strict_world 0) (doc_of strict_world 0))
     = Inl (ValidationError ''score: missing'')"
    by (simp add: validate_def class_of_def doc_of_def strict_defs fixture_defs)
  have v': "fst (run_hook strict_world 0) = Inr () \<and>
    validate (class_of strict_world 0)
      (make_safe (class_of strict_world 0) (doc_of (snd (run_hook strict_world 0)) 0))
     = Inl (ValidationError ''score: missing'')"
    using v by (simp add: h)
  note t = validation_error_no_write [of strict_world 0 "ValidationError ''score: missing''"
      "One ''name''" "[''name'']"]
  from t v v' show ?thesis by blast
qed

subsection \<open>Partial save\<close>

lemma values_of_ok:
  "values_of args data = Inr vals \<Longrightarrow>
     dom vals = set args \<and> (\<forall>f\<in>set args. vals f = data f)"
proof (induction args arbitrary: vals)
  case Nil
  then show ?case by simp
next
  case (Cons a as)
  from Cons.prems obtain v m where v: "data a = Some v" and m: "values_of as data = Inr m"
      and vs: "vals = m(a \<mapsto> v)"
    by (auto split: option.splits sum.splits)
  from Cons.IH [OF m] have d: "dom m = set as" and e: "\<forall>f\<in>set as. m f = data f"
    by simp_all
  have "dom vals = set (a # as)" using d vs by auto
  moreover have "vals f = data f" if "f \<in> set (a # as)" for f
  proof (cases "f = a")
    case True
    with v vs show ?thesis by simp
  next
    case False
    with that e vs show ?thesis by simp
  qed
  ultimately show ?case by blast
qed

lemma values_of_total:
  "set args \<subseteq> dom data \<Longrightarrow> \<exists>vals. values_of args data = Inr vals"
  by (induction args) auto

lemma modify_first_length: "length (modify_first P f c) = length c"
  by (induction c) auto

lemma modify_first_nth:
  "i < length c \<Longrightarrow> modify_first P f c ! i = c ! i \<or> modify_first P f c ! i = f (c ! i)"
proof (induction c arbitrary: i)
  case Nil
  then show ?case by simp
next
  case (Cons d ds)
  then show ?case by (cases i) auto
qed

lemma coll_update_set_frame:
  "length (coll_update sp (Set vs) False fresh c) = length c \<and>
   (\<forall>i f. i < length c \<and> f \<notin> dom vs \<longrightarrow>
      (coll_update sp (Set vs) False fresh c ! i) f = (c ! i) f)"
proof (intro conjI allI impI)
  show "length (coll_update sp (Set vs) False fresh c) = length c"
    by (simp add: coll_update_no_upsert modify_first_length)
next
  fix i f
  assume a: "i < length c \<and> f \<notin> dom vs"
  then have n: "vs f = None" by auto
  from a modify_first_nth [of i c "matches sp" "apply_update (Set vs)"]
  have "modify_first (matches sp) (apply_update (Set vs)) c ! i = c ! i \<or>
        modify_first (matches sp) (apply_update (Set vs)) c ! i = c ! i ++ vs"
    by simp
  then show "(coll_update sp (Set vs) False fresh c ! i) f = (c ! i) f"
    using n by (auto simp: coll_update_no_upsert map_add_def)
qed

lemma storage_update_set_frame:
  "length (stored (storage_update cn sp (Set vs) False s) cn') = length (stored s cn') \<and>
   (\<forall>i f. i < length (stored s cn') \<and> f \<notin> dom vs \<longrightarrow>
      (stored (storage_update cn sp (Set vs) False s) cn' ! i) f = (stored s cn' ! i) f)"
proof (cases "bind s")
  case None
  then show ?thesis
    by (simp add: storage_update_def record_call_def put_coll_def stored_def)
next
  case (Some db)
  then have b: "bind s \<noteq> None" by simp
  show ?thesis
    using coll_update_set_frame [of sp vs "VOid (next_oid s)" "stored s cn"]
    by (simp add: stored_storage_update [OF b])
qed

lemma doc_of_storage_update: "doc_of (storage_update cn sp u ups s) r = doc_of s r"
  by (simp add: doc_of_def heap_storage_update)

lemma values_of_restrict:
  assumes "values_of args data = Inr vals"
  shows "vals = data |` set args \<and> set args \<subseteq> dom data"
proof -
  from values_of_ok [OF assms] have d: "dom vals = set args"
    and e: "\<forall>f\<in>set args. vals f = data f" by simp_all
  have "vals f = (data |` set args) f" for f
  proof (cases "f \<in> set args")
    case True
    with e show ?thesis by simp
  next
    case False
    with d have "vals f = None" by blast
    with False show ?thesis by simp
  qed
  then have "vals = data |` set args" by (rule ext)
  moreover have "set args \<subseteq> dom data"
  proof
    fix f assume m: "f \<in> set args"
    with d have "f \<in> dom vals" by simp
    with e m show "f \<in> dom data" by auto
  qed
  ultimately show ?thesis by simp
qed

lemma prepare_ok:
  assumes "prepare s r = (Inr data, s1)"
  shows "validate (class_of s r) (make_safe (class_of s r) (doc_of s r)) = Inr data \<and>
         doc_of s1 r = make_safe (class_of s r) (doc_of s r) ++ data"
  using assms
  by (auto simp: prepare_def Let_def set_fields_facts split: sum.splits)

lemma modify_first_cong:
  "(\<And>d. d \<in> set c \<Longrightarrow> P d = Q d) \<Longrightarrow> modify_first P f c = modify_first Q f c"
  by (induction c) auto

lemma update_by_id_unique:
  assumes u: "unique_ids c"
  shows "modify_first (matches [(''_id'', Eq k)]) f c
       = map (\<lambda>d. if d ''_id'' = Some k then f d else d) c"
proof -
  have has: "\<And>d. d \<in> set c \<Longrightarrow> d ''_id'' \<noteq> None"
    using u by (simp add: unique_ids_def list_all_iff)
  have eqP: "matches [(''_id'', Eq k)] d = (d ''_id'' = Some k)" if "d \<in> set c" for d
  proof -
    from has [OF that] obtain y where "d ''_id'' = Some y" by blast
    then show ?thesis by (simp add: matches_single)
  qed
  have "modify_first (matches [(''_id'', Eq k)]) f c = modify_first (\<lambda>d. d ''_id'' = Some k) f c"
    by (rule modify_first_cong) (rule eqP)
  also have "\<dots> = map (\<lambda>d. if d ''_id'' = Some k then f d else d) c"
    by (rule modify_first_unique [where key = "\<lambda>d. d ''_id''" and k = "Some k"])
       (use u in \<open>simp_all add: unique_ids_def\<close>)
  finally show ?thesis .
qed

lemma apply_update_Set: "apply_update (Set vs) = (\<lambda>d. d ++ vs)"
  by (rule ext) simp

text \<open>
  The two outcomes of \<open>save\<close> with named fields: either it raises before any storage
  call, or it issues the one field-set update keyed by the primary key, with the
  values that the validated snapshot has for the named fields.
\<close>

lemma save_partial_cases:
  assumes a: "args \<noteq> []"
  shows "(fst (save s r args) \<noteq> Inr () \<and> bind (snd (save s r args)) = bind s \<and>
          calls (snd (save s r args)) = calls s) \<or>
         (\<exists>k data s1.
            validate (class_of s r)
              (make_safe (class_of s r) (doc_of (snd (run_hook s r)) r)) = Inr data \<and>
            set args \<subseteq> dom data \<and>
            save s r args =
              (Inr (), storage_update (coll_name (class_of s r)) [(''_id'', Eq k)]
                         (Set (data |` set args)) False s1) \<and>
            bind s \<noteq> None \<and> bind s1 = bind s \<and> calls s1 = calls s \<and>
            doc_of s1 r ''_id'' = Some k \<and>
            doc_of s1 r = make_safe (class_of s r) (doc_of (snd (run_hook s r)) r) ++ data)"
proof -
  obtain h s0 where hk: "run_hook s r = (h, s0)" by (cases "run_hook s r")
  have s0: "bind s0 = bind s" "calls s0 = calls s" "class_of s0 r = class_of s r"
    using run_hook_facts [of s r] hk by simp_all
  obtain p s1 where pr: "prepare s0 r = (p, s1)" by (cases "prepare s0 r")
  have s1: "bind s1 = bind s" "calls s1 = calls s" "class_of s1 r = class_of s r"
    using prepare_facts [of s0 r] pr s0 by simp_all
  show ?thesis
  proof (cases h)
    case (Inl e)
    with hk s0 show ?thesis by (simp add: save_def)
  next
    case (Inr u)
    note h = this
    show ?thesis
    proof (cases p)
      case (Inl e)
      with hk h pr s1 show ?thesis by (simp add: save_def)
    next
      case (Inr data)
      note p = this
      have pk: "validate (class_of s r) (make_safe (class_of s r) (doc_of s0 r)) = Inr data"
        "doc_of s1 r = make_safe (class_of s r) (doc_of s0 r) ++ data"
        using prepare_ok [of s0 r data s1] pr p s0 by simp_all
      show ?thesis
      proof (cases "values_of args data")
        case (Inl e)
        with hk h pr p s1 a show ?thesis by (simp add: save_def)
      next
        case (Inr vals)
        note vs = this
        have dv: "vals = data |` set args" "set args \<subseteq> dom data"
          using values_of_restrict [OF vs] by simp_all
        show ?thesis
        proof (cases "bind s")
          case None
          with hk h pr p s1 a vs show ?thesis by (simp add: save_def impl_def)
        next
          case (Some db)
          note b = this
          show ?thesis
          proof (cases "doc_of s1 r ''_id''")
            case None
            with hk h pr p s1 a vs b show ?thesis by (simp add: save_def impl_def)
          next
            case (Some k)
            with hk h pr p s1 a vs b have "save s r args =
                (Inr (), storage_update (coll_name (class_of s r)) [(''_id'', Eq k)] (Set vals) False s1)"
              by (simp add: save_def impl_def)
            then have sv: "save s r args =
                (Inr (), storage_update (coll_name (class_of s r)) [(''_id'', Eq k)]
                           (Set (data |` set args)) False s1)"
              by (simp only: dv(1))
            have s0e: "snd (run_hook s r) = s0" using hk by simp
            have v': "validate (class_of s r)
                (make_safe (class_of s r) (doc_of (snd (run_hook s r)) r)) = Inr data"
              by (simp only: s0e pk(1))
            have d': "doc_of s1 r =
                make_safe (class_of s r) (doc_of (snd (run_hook s r)) r) ++ data"
              by (simp only: s0e pk(2))
            have bn: "bind s \<noteq> None" using b by simp
            from v' dv(2) sv bn s1(1,2) Some d' show ?thesis by blast
          qed
        qed
      qed
    qed
  qed
qed

lemma map_add_idem: "(d :: doc) ++ d = d"
  by (rule ext) (simp add: map_add_def split: option.splits)

lemma save_partial_ok:
  assumes nh: "before_save (class_of s r) = None" and ns: "schema (class_of s r) = None"
    and b: "bind s \<noteq> None"
    and sub: "set args \<subseteq> dom (make_safe (class_of s r) (doc_of s r))"
    and i: "''_id'' \<in> dom (make_safe (class_of s r) (doc_of s r))"
    and a: "args \<noteq> []"
  shows "fst (save s r args) = Inr () \<and>
         doc_of (snd (save s r args)) r = make_safe (class_of s r) (doc_of s r)"
proof -
  let ?d = "make_safe (class_of s r) (doc_of s r)"
  let ?s1 = "set_fields (set_fields s r ?d) r (?d ++ ?d)"
  have h: "run_hook s r = (Inr (), s)" using nh by (simp add: run_hook_def)
  have p: "prepare s r = (Inr ?d, ?s1)"
    using ns by (simp add: prepare_def validate_def Let_def)
  from values_of_total [OF sub] obtain vals where vs: "values_of args ?d = Inr vals" ..
  from i obtain k where k: "?d ''_id'' = Some k" by auto
  have dd: "doc_of ?s1 r = ?d" by (simp add: set_fields_facts map_add_idem)
  have dk: "doc_of ?s1 r ''_id'' = Some k" using k dd by simp
  have b1: "bind ?s1 \<noteq> None" using b by (simp add: set_fields_facts)
  have c1: "class_of ?s1 r = class_of s r" by (simp add: set_fields_facts)
  have "save s r args =
      (Inr (), storage_update (coll_name (class_of s r)) [(''_id'', Eq k)] (Set vals) False ?s1)"
    using h p vs dk b1 c1 a by (auto simp: save_def impl_def)
  then show ?thesis using dd by (simp add: doc_of_storage_update)
qed

text \<open>
  Claim C7. For \<open>save(doc, f1, ..., fn)\<close> with at least one named field, writing
  \<open>data\<close> for the validated snapshot and \<open>k\<close> for the document's primary key.
  Whatever the outcome, every stored record of every collection keeps its position
  and each of its fields that is not named. When the call returns normally, it has
  issued exactly one storage call, the update with filter \<open>{'_id': k}\<close> and
  \<open>{'$set': values}\<close> where \<open>values\<close> is \<open>data\<close> on exactly the named fields; the
  document's collection is the old one with that update applied to the first record
  with key \<open>k\<close>, the other collections are unchanged, and in a well keyed collection
  the record with key \<open>k\<close> takes the values while every other record stays as it was,
  named fields included. The call does return normally for a class without hook
  and schema on a bound session when the document has a primary key and all the
  named fields, and then the snapshot is the document itself.
\<close>

theorem save_partial_isolation:
  assumes a: "args \<noteq> []"
  shows "(\<forall>cn. length (stored (snd (save s r args)) cn) = length (stored s cn) \<and>
            (\<forall>i f. i < length (stored s cn) \<and> f \<notin> set args \<longrightarrow>
               (stored (snd (save s r args)) cn ! i) f = (stored s cn ! i) f)) \<and>
         (fst (save s r args) = Inr () \<longrightarrow>
            (\<exists>k data.
               validate (class_of s r)
                 (make_safe (class_of s r) (doc_of (snd (run_hook s r)) r)) = Inr data \<and>
               set args \<subseteq> dom data \<and>
               doc_of (snd (save s r args)) r ''_id'' = Some k \<and>
               (\<forall>f\<in>set args. doc_of (snd (save s r args)) r f = data f) \<and>
               calls (snd (save s r args)) =
                 calls s @ [Update (coll_name (class_of s r)) [(''_id'', Eq k)]
                              (Set (data |` set args)) False] \<and>
               stored (snd (save s r args)) (coll_name (class_of s r)) =
                 modify_first (matches [(''_id'', Eq k)]) (\<lambda>d. d ++ data |` set args)
                   (stored s (coll_name (class_of s r))) \<and>
               (\<forall>cn. cn \<noteq> coll_name (class_of s r) \<longrightarrow>
                  stored (snd (save s r args)) cn = stored s cn) \<and>
               (unique_ids (stored s (coll_name (class_of s r))) \<longrightarrow>
                  stored (snd (save s r args)) (coll_name (class_of s r)) =
                    map (\<lambda>d. if d ''_id'' = Some k then d ++ data |` set args else d)
                      (stored s (coll_name (class_of s r)))))) \<and>
         (before_save (class_of s r) = None \<and> schema (class_of s r) = None \<and> bind s \<noteq> None \<and>
          set args \<subseteq> dom (make_safe (class_of s r) (doc_of s r)) \<and>
          ''_id'' \<in> dom (make_safe (class_of s r) (doc_of s r)) \<longrightarrow>
            fst (save s r args) = Inr () \<and>
            doc_of (snd (save s r args)) r = make_safe (class_of s r) (doc_of s r))"
proof (intro conjI)
  from save_partial_cases [OF a, of s r]
  show "\<forall>cn. length (stored (snd (save s r args)) cn) = length (stored s cn) \<and>
            (\<forall>i f. i < length (stored s cn) \<and> f \<notin> set args \<longrightarrow>
               (stored (snd (save s r args)) cn ! i) f = (stored s cn ! i) f)"
  proof
    assume "fst (save s r args) \<noteq> Inr () \<and> bind (snd (save s r args)) = bind s \<and>
          calls (snd (save s r args)) = calls s"
    then have "bind (snd (save s r args)) = bind s" by simp
    then show ?thesis by (simp add: stored_cong [of "snd (save s r args)" s])
  next
    assume "\<exists>k data s1.
            validate (class_of s r)
              (make_safe (class_of s r) (doc_of (snd (run_hook s r)) r)) = Inr data \<and>
            set args \<subseteq> dom data \<and>
            save s r args =
              (Inr (), storage_update (coll_name (class_of s r)) [(''_id'', Eq k)]
                         (Set (data |` set args)) False s1) \<and>
            bind s \<noteq> None \<and> bind s1 = bind s \<and> calls s1 = calls s \<and>
            doc_of s1 r ''_id'' = Some k \<and>
            doc_of s1 r = make_safe (class_of s r) (doc_of (snd (run_hook s r)) r) ++ data"
    then obtain k data s1 where sv: "save s r args =
              (Inr (), storage_update (coll_name (class_of s r)) [(''_id'', Eq k)]
                         (Set (data |` set args)) False s1)"
        and sub: "set args \<subseteq> dom data" and b1: "bind s1 = bind s"
      by blast
    have dv: "dom (data |` set args) = set args" using sub by auto
    show ?thesis
      using storage_update_set_frame [of "coll_name (class_of s r)" "[(''_id'', Eq k)]"
          "data |` set args" s1]
      by (simp add: sv dv stored_cong [OF b1])
  qed
next
  from save_partial_cases [OF a, of s r]
  show "fst (save s r args) = Inr () \<longrightarrow>
            (\<exists>k data.
               validate (class_of s r)
                 (make_safe (class_of s r) (doc_of (snd (run_hook s r)) r)) = Inr data \<and>
               set args \<subseteq> dom data \<and>
               doc_of (snd (save s r args)) r ''_id'' = Some k \<and>
               (\<forall>f\<in>set args. doc_of (snd (save s r args)) r f = data f) \<and>
               calls (snd (save s r args)) =
                 calls s @ [Update (coll_name (class_of s r)) [(''_id'', Eq k)]
                              (Set (data |` set args)) False] \<and>
               stored (snd (save s r args)) (coll_name (class_of s r)) =
                 modify_first (matches [(''_id'', Eq k)]) (\<lambda>d. d ++ data |` set args)
                   (stored s (coll_name (class_of s r))) \<and>
               (\<forall>cn. cn \<noteq> coll_name (class_of s r) \<longrightarrow>
                  stored (snd (save s r args)) cn = stored s cn) \<and>
               (unique_ids (stored s (coll_name (class_of s r))) \<longrightarrow>
                  stored (snd (save s r args)) (coll_name (class_of s r)) =
                    map (\<lambda>d. if d ''_id'' = Some k then d ++ data |` set args else d)
                      (stored s (coll_name (class_of s r)))))"
  proof
    assume "fst (save s r args) \<noteq> Inr () \<and> bind (snd (save s r args)) = bind s \<and>
          calls (snd (save s r args)) = calls s"
    then show ?thesis by simp
  next
    assume "\<exists>k data s1.
            validate (class_of s r)
              (make_safe (class_of s r) (doc_of (snd (run_hook s r)) r)) = Inr data \<and>
            set args \<subseteq> dom data \<and>
            save s r args =
              (Inr (), storage_update (coll_name (class_of s r)) [(''_id'', Eq k)]
                         (Set (data |` set args)) False s1) \<and>
            bind s \<noteq> None \<and> bind s1 = bind s \<and> calls s1 = calls s \<and>
            doc_of s1 r ''_id'' = Some k \<and>
            doc_of s1 r = make_safe (class_of s r) (doc_of (snd (run_hook s r)) r) ++ data"
    then obtain k data s1 where
        va: "validate (class_of s r)
              (make_safe (class_of s r) (doc_of (snd (run_hook s r)) r)) = Inr data"
        and sub: "set args \<subseteq> dom data"
        and sv: "save s r args =
              (Inr (), storage_update (coll_name (class_of s r)) [(''_id'', Eq k)]
                         (Set (data |` set args)) False s1)"
        and b: "bind s \<noteq> None" and b1: "bind s1 = bind s" and c1: "calls s1 = calls s"
        and dk: "doc_of s1 r ''_id'' = Some k"
        and dd: "doc_of s1 r = make_safe (class_of s r) (doc_of (snd (run_hook s r)) r) ++ data"
      by blast
    let ?cn = "coll_name (class_of s r)"
    let ?s' = "snd (save s r args)"
    have s': "?s' = storage_update ?cn [(''_id'', Eq k)] (Set (data |` set args)) False s1"
      by (simp add: sv)
    have bb: "bind s1 \<noteq> None" using b b1 by simp
    have e1: "doc_of ?s' r ''_id'' = Some k"
      by (simp add: s' doc_of_storage_update dk)
    have e2: "\<forall>f\<in>set args. doc_of ?s' r f = data f"
    proof
      fix f assume "f \<in> set args"
      with sub have "f \<in> dom data" by blast
      then show "doc_of ?s' r f = data f"
        by (auto simp: s' doc_of_storage_update dd map_add_def)
    qed
    have e3: "calls ?s' = calls s @ [Update ?cn [(''_id'', Eq k)] (Set (data |` set args)) False]"
      by (simp add: s' calls_storage_update c1)
    have e4: "stored ?s' ?cn = modify_first (matches [(''_id'', Eq k)])
        (\<lambda>d. d ++ data |` set args) (stored s ?cn)"
      by (simp add: s' stored_storage_update [OF bb] coll_update_no_upsert apply_update_Set
          stored_cong [OF b1])
    have e5: "\<forall>cn. cn \<noteq> ?cn \<longrightarrow> stored ?s' cn = stored s cn"
      by (simp add: s' stored_storage_update [OF bb] stored_cong [OF b1])
    have e6: "unique_ids (stored s ?cn) \<longrightarrow> stored ?s' ?cn =
        map (\<lambda>d. if d ''_id'' = Some k then d ++ data |` set args else d) (stored s ?cn)"
      by (simp add: e4 update_by_id_unique)
    from va sub e1 e2 e3 e4 e5 e6 show ?thesis by blast
  qed
next
  show "before_save (class_of s r) = None \<and> schema (class_of s r) = None \<and> bind s \<noteq> None \<and>
          set args \<subseteq> dom (make_safe (class_of s r) (doc_of s r)) \<and>
          ''_id'' \<in> dom (make_safe (class_of s r) (doc_of s r)) \<longrightarrow>
            fst (save s r args) = Inr () \<and>
            doc_of (snd (save s r args)) r = make_safe (class_of s r) (doc_of s r)"
    using save_partial_ok [OF _ _ _ _ _ a] by blast
qed

lemmas renamed_defs = renamed_db_def renamed_world_def

text \<open>
  Witness for C7: the in-memory user has been renamed to \<open>b\<close>; the stored record
  still has the name \<open>a\<close> and a score 7 that the in-memory document lacks.
  \<open>save(doc, 'name')\<close> returns normally; afterwards the stored record with key 1 has
  the name \<open>b\<close> and still the score 7, and the record with key 2 keeps its name.
\<close>

theorem save_partial_isolation_witness:
  "[''name''] \<noteq> [] \<and>
   before_save (class_of renamed_world 0) = None \<and> schema (class_of renamed_world 0) = None \<and>
   bind renamed_world \<noteq> None \<and>
   set [''name''] \<subseteq> dom (make_safe (class_of renamed_world 0) (doc_of renamed_world 0)) \<and>
   ''_id'' \<in> dom (make_safe (class_of renamed_world 0) (doc_of renamed_world 0)) \<and>
   unique_ids (stored renamed_world ''user'') \<and>
   fst (save renamed_world 0 [''name'']) = Inr () \<and>
   map (\<lambda>d. (d ''_id'', d ''name'', d ''score'')) (stored renamed_world ''user'')
     = [(Some (VInt 1), Some (VStr ''a''), Some (VInt 7)), (Some (VInt 2), Some (VStr ''c''), None)] \<and>
   map (\<lambda>d. (d ''_id'', d ''name'', d ''score'')) (stored (snd (save renamed_world 0 [''name''])) ''user'')
     = [(Some (VInt 1), Some (VStr ''b''), Some (VInt 7)), (Some (VInt 2), Some (VStr ''c''), None)]"
proof -
  let ?s = renamed_world
  let ?s' = "snd (save renamed_world 0 [''name''])"
  have ne: "[''name''] \<noteq> ([] :: string list)" by simp
  have cl: "class_of ?s 0 = User" "coll_name User = ''user''" "make_safe User = (\<lambda>d. d)"
    by (simp_all add: renamed_defs fixture_defs class_of_def)
  have dc: "doc_of ?s 0 = [''_id'' \<mapsto> VInt 1, ''name'' \<mapsto> VStr ''b'']"
    by (simp add: renamed_defs fixture_defs doc_of_def)
  have h: "before_save (class_of ?s 0) = None \<and> schema (class_of ?s 0) = None \<and>
      bind ?s \<noteq> None \<and>
      set [''name''] \<subseteq> dom (make_safe (class_of ?s 0) (doc_of ?s 0)) \<and>
      ''_id'' \<in> dom (make_safe (class_of ?s 0) (doc_of ?s 0))"
    by (simp add: cl dc) (simp add: renamed_defs fixture_defs)
  have st: "stored ?s ''user'' =
      [[''_id'' \<mapsto> VInt 1, ''name'' \<mapsto> VStr ''a'', ''score'' \<mapsto> VInt 7],
       [''_id'' \<mapsto> VInt 2, ''name'' \<mapsto> VStr ''c'']]"
    by (simp add: renamed_defs fixture_defs stored_def)
  have u: "unique_ids (stored ?s ''user'')"
    by (simp add: st unique_ids_def)
  have hk: "snd (run_hook ?s 0) = ?s"
    by (simp add: run_hook_def cl) (simp add: fixture_defs)
  note t = save_partial_isolation [OF ne, of ?s 0]
  from t h have ok: "fst (save ?s 0 [''name'']) = Inr ()" by blast
  from t ok obtain k data where
      va: "validate (class_of ?s 0) (make_safe (class_of ?s 0) (doc_of (snd (run_hook ?s 0)) 0))
            = Inr data"
      and ki: "doc_of ?s' 0 ''_id'' = Some k"
      and nm: "\<forall>f\<in>set [''name'']. doc_of ?s' 0 f = data f"
      and up: "unique_ids (stored ?s (coll_name (class_of ?s 0))) \<longrightarrow>
          stored ?s' (coll_name (class_of ?s 0)) =
            map (\<lambda>d. if d ''_id'' = Some k then d ++ data |` set [''name''] else d)
              (stored ?s (coll_name (class_of ?s 0)))"
    by blast
  from t h have dd: "doc_of ?s' 0 = make_safe (class_of ?s 0) (doc_of ?s 0)" by blast
  have data: "data = [''_id'' \<mapsto> VInt 1, ''name'' \<mapsto> VStr ''b'']"
    using va by (simp add: hk cl dc validate_def) (simp add: fixture_defs)
  have k: "k = VInt 1" using ki by (simp add: dd cl dc)
  have "stored ?s' ''user'' =
      map (\<lambda>d. if d ''_id'' = Some k then d ++ data |` set [''name''] else d) (stored ?s ''user'')"
    using up u by (simp add: cl)
  then have after: "map (\<lambda>d. (d ''_id'', d ''name'', d ''score'')) (stored ?s' ''user'')
     = [(Some (VInt 1), Some (VStr ''b''), Some (VInt 7)), (Some (VInt 2), Some (VStr ''c''), None)]"
    by (simp add: st k data map_add_def restrict_map_def)
  have before: "map (\<lambda>d. (d ''_id'', d ''name'', d ''score'')) (stored ?s ''user'')
     = [(Some (VInt 1), Some (VStr ''a''), Some (VInt 7)), (Some (VInt 2), Some (VStr ''c''), None)]"
    by (simp add: st)
  from ne h u ok before after show ?thesis by blast
qed

subsection \<open>Delete\<close>

text \<open>
  Claim C2, as amended. On a bound session, \<open>delete(doc)\<close> for a document with
  primary key \<open>k\<close> returns normally and removes every stored record with that key
  from the document's collection; the identity map, the unit of work and the heap
  are unchanged, so an instance the identity map held before is still returned by a
  later \<open>get\<close> by its key, without a storage call.
\<close>

theorem delete_keeps_session_state:
  assumes b: "bind s \<noteq> None" and i: "doc_of s r ''_id'' = Some k"
  shows "fst (delete s r) = Inr () \<and>
         coll_find_one [(''_id'', Eq k)] (stored (snd (delete s r)) (coll_name (class_of s r))) = None \<and>
         imap (snd (delete s r)) = imap s \<and> uow (snd (delete s r)) = uow s \<and>
         heap (snd (delete s r)) = heap s \<and>
         (\<forall>c k' r'. imap_get s c k' = Some r' \<longrightarrow>
            get (snd (delete s r)) c [(''_id'', k')] = (Inr (Some r'), snd (delete s r)))"
proof -
  let ?cn = "coll_name (class_of s r)"
  let ?s1 = "storage_remove ?cn [(''_id'', Eq k)] s"
  have d: "delete s r = (Inr (), ?s1)"
    using b i by (auto simp: delete_def impl_def)
  have st: "stored ?s1 ?cn = coll_remove [(''_id'', Eq k)] (stored s ?cn)"
    using b by (auto simp: storage_remove_def record_call_def put_coll_def stored_def)
  have gone: "coll_find_one [(''_id'', Eq k)] (stored ?s1 ?cn) = None"
    unfolding st by (simp add: coll_find_one_def coll_remove_def find_None_iff)
  have keep: "imap ?s1 = imap s" "uow ?s1 = uow s" "heap ?s1 = heap s"
    by (simp_all add: storage_remove_def record_call_def put_coll_def)
  have "get ?s1 c [(''_id'', k')] = (Inr (Some r'), ?s1)" if "imap_get s c k' = Some r'" for c k' r'
  proof -
    from that keep(1) have "imap_get ?s1 c k' = Some r'" by (simp add: imap_get_def)
    then show ?thesis by (rule get_hit)
  qed
  with d gone keep show ?thesis by simp
qed

text \<open>
  Witness for C2: deleting the cached user of the example session empties the
  collection and keeps the identity-map entry.
\<close>

theorem delete_keeps_session_state_witness:
  "fst (delete cached_world 0) = Inr () \<and>
   coll_find_one [(''_id'', Eq (VInt 1))] (stored (snd (delete cached_world 0)) ''user'') = None \<and>
   imap (snd (delete cached_world 0)) = imap cached_world \<and>
   imap_get cached_world User (VInt 1) = Some 0 \<and>
   get (snd (delete cached_world 0)) User [(''_id'', VInt 1)]
     = (Inr (Some 0), snd (delete cached_world 0))"
proof -
  have h: "bind cached_world \<noteq> None" "doc_of cached_world 0 ''_id'' = Some (VInt 1)"
    by (simp_all add: cached_defs fixture_defs doc_of_def)
  have cn: "coll_name (class_of cached_world 0) = ''user''"
    by (simp add: cached_defs fixture_defs class_of_def)
  have m: "imap_get cached_world User (VInt 1) = Some 0"
    by (simp add: imap_get_def cached_defs fixture_defs)
  from delete_keeps_session_state [OF h] m show ?thesis
    unfolding cn by blast
qed

text \<open>
  Counterexample to C2 as stated: after \<open>delete\<close> of the cached user the stored
  collection is empty, yet the identity map still holds the object for (User, 1),
  the unit of work still tracks it as clean, and \<open>get(User, _id=1)\<close> returns it
  without consulting storage (the only recorded call is the remove).
\<close>

theorem delete_leaves_identity_map_counterexample:
  "fst (delete cached_world 0) = Inr () \<and>
   stored (snd (delete cached_world 0)) ''user'' = [] \<and>
   imap_get (snd (delete cached_world 0)) User (VInt 1) = Some 0 \<and>
   uow (snd (delete cached_world 0)) 0 = Some Clean \<and>
   fst (get (snd (delete cached_world 0)) User [(''_id'', VInt 1)]) = Inr (Some 0) \<and>
   calls (snd (get (snd (delete cached_world 0)) User [(''_id'', VInt 1)]))
     = [RemoveCall ''user'' [(''_id'', Eq (VInt 1))]]"
  by (simp add: cached_defs fixture_defs delete_def impl_def doc_of_def class_of_def
      storage_remove_def record_call_def put_coll_def stored_def coll_remove_def matches_def
      get_def imap_get_def)

end
